theory Spec2Isabelle
  imports Main "HOL-Library.AList" "HOL-Library.Char_ord" "HOL-Library.List_Lexorder"
begin

section \<open>Python values\<close>

text \<open>
  The program handles decoded JSON: the incidents returned by \<^verbatim>\<open>response.json()\<close> and
  the detailed IP file read by \<^verbatim>\<open>json.load\<close>. A Python \<^verbatim>\<open>dict\<close> keeps its keys in
  insertion order and is an association list with distinct keys; a Python \<^verbatim>\<open>str\<close> is a
  \<^typ>\<open>string\<close> whose characters are the code points below 256. \<open>JNum\<close> holds the
  integers; a non-integer number behaves like a non-zero integer in every operation the
  program applies to a decoded value (truth test, \<^verbatim>\<open>in\<close>, subscript, attribute access).
\<close>

datatype json =
    JNull
  | JBool bool
  | JNum int
  | JStr string
  | JArr "json list"
  | JObj "(string \<times> json) list"

datatype error =
    ValueError
  | TypeError
  | AttributeError
  | KeyError
  | JSONDecodeError
  | OverflowError
  | RequestException

definition and_then :: "error + 'a \<Rightarrow> ('a \<Rightarrow> error + 'b) \<Rightarrow> error + 'b" where
  "and_then m f = (case m of Inl e \<Rightarrow> Inl e | Inr x \<Rightarrow> f x)"

text \<open>The truth value of a decoded value in a condition (\<^verbatim>\<open>if v:\<close>, \<^verbatim>\<open>not v\<close>).\<close>

fun truthy :: "json \<Rightarrow> bool" where
  "truthy JNull = False"
| "truthy (JBool b) = b"
| "truthy (JNum n) = (n \<noteq> 0)"
| "truthy (JStr s) = (s \<noteq> [])"
| "truthy (JArr xs) = (xs \<noteq> [])"
| "truthy (JObj kvs) = (kvs \<noteq> [])"

text \<open>
  \<^verbatim>\<open>str.strip()\<close> removes leading and trailing whitespace; below code point 256 the
  whitespace characters are 9 to 13, 28 to 32, 133 and 160.
\<close>

definition is_space :: "char \<Rightarrow> bool" where
  "is_space c =
     (let n = (of_char c :: nat)
      in (9 \<le> n \<and> n \<le> 13) \<or> (28 \<le> n \<and> n \<le> 32) \<or> n = 133 \<or> n = 160)"

definition strip :: "string \<Rightarrow> string" where
  "strip s = rev (dropWhile is_space (rev (dropWhile is_space s)))"

text \<open>\<^verbatim>\<open>s.startswith(p)\<close> and the substring test \<^verbatim>\<open>k in s\<close> on strings.\<close>

definition startswith :: "string \<Rightarrow> string \<Rightarrow> bool" where
  "startswith s p = (take (length p) s = p)"

fun substring :: "string \<Rightarrow> string \<Rightarrow> bool" where
  "substring k [] = (k = [])"
| "substring k (c # s) = (startswith (c # s) k \<or> substring k s)"

text \<open>
  \<^verbatim>\<open>k in v\<close> for a string \<open>k\<close>: key membership on a dict, substring test on a string,
  element membership on a list, \<^verbatim>\<open>TypeError\<close> on a number, a boolean and \<^verbatim>\<open>None\<close>.
\<close>

fun py_in :: "string \<Rightarrow> json \<Rightarrow> error + bool" where
  "py_in k (JObj kvs) = Inr (k \<in> set (map fst kvs))"
| "py_in k (JStr s) = Inr (substring k s)"
| "py_in k (JArr xs) = Inr (JStr k \<in> set xs)"
| "py_in k JNull = Inl TypeError"
| "py_in k (JBool b) = Inl TypeError"
| "py_in k (JNum n) = Inl TypeError"

text \<open>
  \<^verbatim>\<open>v[k]\<close> for a string \<open>k\<close>: lookup on a dict (\<^verbatim>\<open>KeyError\<close> when absent),
  \<^verbatim>\<open>TypeError\<close> on everything else (a string and a list take integer indices only).
\<close>

fun py_getitem :: "json \<Rightarrow> string \<Rightarrow> error + json" where
  "py_getitem (JObj kvs) k = (case map_of kvs k of None \<Rightarrow> Inl KeyError | Some v \<Rightarrow> Inr v)"
| "py_getitem v k = Inl TypeError"

text \<open>\<^verbatim>\<open>v.get(k, d)\<close>: only a dict has the method.\<close>

fun py_get :: "json \<Rightarrow> string \<Rightarrow> json \<Rightarrow> error + json" where
  "py_get (JObj kvs) k d = Inr (case map_of kvs k of None \<Rightarrow> d | Some v \<Rightarrow> v)"
| "py_get v k d = Inl AttributeError"

text \<open>
  The guard \<^verbatim>\<open>if x and x.strip()\<close>: a falsy value fails it, a string passes it when it
  is not blank, and any other truthy value has no \<^verbatim>\<open>strip\<close> (\<^verbatim>\<open>AttributeError\<close>).
  The result is the string that passed.
\<close>

fun py_nonblank :: "json \<Rightarrow> error + string option" where
  "py_nonblank (JStr s) = Inr (if s \<noteq> [] \<and> strip s \<noteq> [] then Some s else None)"
| "py_nonblank v = (if truthy v then Inl AttributeError else Inr None)"

text \<open>
  Iterating a value (\<^verbatim>\<open>for x in v\<close>, \<^verbatim>\<open>list.extend(v)\<close>): the elements of a list, the
  one-character strings of a string, the keys of a dict; the rest is not iterable.
\<close>

fun py_iter :: "json \<Rightarrow> error + json list" where
  "py_iter (JArr xs) = Inr xs"
| "py_iter (JStr s) = Inr (map (\<lambda>c. JStr [c]) s)"
| "py_iter (JObj kvs) = Inr (map (\<lambda>kv. JStr (fst kv)) kvs)"
| "py_iter v = Inl TypeError"

section \<open>The extractor\<close>

text \<open>
  \<^verbatim>\<open>ip_data\<close> is a dict from IP to the reputation value of the incident;
  \<^verbatim>\<open>ip_data[ip] = reputation\<close> replaces the value of a key in place or appends a new key
  (\<^const>\<open>AList.update\<close>). \<^verbatim>\<open>domains\<close> is a set of strings.
\<close>

type_synonym ip_data = "(string \<times> json) list"

definition attack_ip_step :: "json \<Rightarrow> ip_data \<Rightarrow> error + ip_data" where
  "attack_ip_step incident ip_data =
     and_then (py_in ''dominant_attack_ip'' incident) (\<lambda>present.
       if \<not> present then Inr ip_data
       else and_then (py_getitem incident ''dominant_attack_ip'') (\<lambda>nested.
         and_then (py_in ''ip'' nested) (\<lambda>has_ip.
           if \<not> has_ip then Inr ip_data
           else and_then (py_getitem nested ''ip'') (\<lambda>ip.
             and_then (py_nonblank ip) (\<lambda>checked.
               case checked of
                 None \<Rightarrow> Inr ip_data
               | Some s \<Rightarrow>
                   and_then (py_get nested ''reputation'' (JArr [])) (\<lambda>reputation.
                     Inr (AList.update s reputation ip_data)))))))"

definition attacked_host_step :: "json \<Rightarrow> string set \<Rightarrow> error + string set" where
  "attacked_host_step incident domains =
     and_then (py_in ''dominant_attacked_host'' incident) (\<lambda>present.
       if \<not> present then Inr domains
       else and_then (py_getitem incident ''dominant_attacked_host'') (\<lambda>nested.
         and_then (py_in ''value'' nested) (\<lambda>has_value.
           if \<not> has_value then Inr domains
           else and_then (py_getitem nested ''value'') (\<lambda>domain.
             and_then (py_nonblank domain) (\<lambda>checked.
               case checked of
                 None \<Rightarrow> Inr domains
               | Some s \<Rightarrow> Inr (insert s domains))))))"

text \<open>The body of the \<^verbatim>\<open>for\<close> loop, and the loop over the incidents.\<close>

definition incident_step ::
  "json \<Rightarrow> ip_data \<times> string set \<Rightarrow> error + ip_data \<times> string set" where
  "incident_step incident st =
     and_then (attack_ip_step incident (fst st)) (\<lambda>ip_data.
       and_then (attacked_host_step incident (snd st)) (\<lambda>domains.
         Inr (ip_data, domains)))"

fun extract_loop ::
  "json list \<Rightarrow> ip_data \<times> string set \<Rightarrow> error + ip_data \<times> string set" where
  "extract_loop [] st = Inr st"
| "extract_loop (incident # rest) st = and_then (incident_step incident st) (extract_loop rest)"

text \<open>
  \<^verbatim>\<open>extract_data_from_incidents(incidents)\<close>: a single dict is treated as a one-element
  list; anything else is iterated.
\<close>

definition extract_data_from_incidents :: "json \<Rightarrow> error + ip_data \<times> string set" where
  "extract_data_from_incidents incidents =
     and_then (case incidents of JObj kvs \<Rightarrow> Inr [incidents] | _ \<Rightarrow> py_iter incidents)
       (\<lambda>items. extract_loop items ([], {}))"

text \<open>
  The union of two extraction results, as \<^verbatim>\<open>dict.update\<close> computes it: the entries of
  the second dict are stored into the first one in order, so a key of both keeps its place
  and takes the second value.
\<close>

definition dict_union :: "ip_data \<Rightarrow> ip_data \<Rightarrow> ip_data" where
  "dict_union a b = fold (\<lambda>kv. AList.update (fst kv) (snd kv)) b a"

text \<open>
  Shapes of incidents, for stating when the extractor returns. \<open>scalar\<close>: a number, a
  boolean or \<^verbatim>\<open>None\<close>. \<open>nested_dicts\<close>: every nested field that is present is a dict.
  \<open>well_formed\<close>: the incident is a dict, and every nested field that is present is a dict
  whose \<^verbatim>\<open>ip\<close> (\<^verbatim>\<open>value\<close>) entry is absent or a string.
\<close>

definition scalar :: "json \<Rightarrow> bool" where
  "scalar v = (case v of JNull \<Rightarrow> True | JBool b \<Rightarrow> True | JNum n \<Rightarrow> True | _ \<Rightarrow> False)"

definition dict_or_absent :: "json option \<Rightarrow> bool" where
  "dict_or_absent f = (case f of None \<Rightarrow> True | Some (JObj n) \<Rightarrow> True | Some v \<Rightarrow> False)"

definition nested_dicts :: "json \<Rightarrow> bool" where
  "nested_dicts incident =
     (case incident of
        JObj kvs \<Rightarrow> dict_or_absent (map_of kvs ''dominant_attack_ip'')
                  \<and> dict_or_absent (map_of kvs ''dominant_attacked_host'')
      | _ \<Rightarrow> True)"

definition field_ok :: "string \<Rightarrow> json option \<Rightarrow> bool" where
  "field_ok k f =
     (case f of
        None \<Rightarrow> True
      | Some (JObj n) \<Rightarrow> (case map_of n k of None \<Rightarrow> True | Some (JStr s) \<Rightarrow> True | Some v \<Rightarrow> False)
      | Some v \<Rightarrow> False)"

definition well_formed :: "json \<Rightarrow> bool" where
  "well_formed incident =
     (case incident of
        JObj kvs \<Rightarrow> field_ok ''ip'' (map_of kvs ''dominant_attack_ip'')
                  \<and> field_ok ''value'' (map_of kvs ''dominant_attacked_host'')
      | _ \<Rightarrow> False)"

section \<open>The fetchers\<close>

text \<open>
  A request is what \<^verbatim>\<open>requests.get(url, params=params, headers=headers)\<close> receives; a
  header read from an unset environment variable is \<^verbatim>\<open>None\<close>. A response is its status
  code and the value of \<^verbatim>\<open>response.json()\<close> (\<open>None\<close> when the body is not JSON and
  decoding raises). The network is a function from the request to a response, or to the
  exception that \<^verbatim>\<open>requests.get\<close> raises. The environment maps a variable to its value
  (\<^verbatim>\<open>os.getenv\<close>). Log output is not part of the state.
\<close>

record request =
  url :: string
  params :: "(string \<times> json) list"
  headers :: "(string \<times> string option) list"

record response =
  status_code :: int
  json_body :: "json option"

type_synonym env = "string \<rightharpoonup> string"
type_synonym http = "request \<Rightarrow> error + response"

definition api_url :: string where
  "api_url = ''https://api.imperva.com/analytics/v1/incidents''"

definition opt_str :: "string option \<Rightarrow> json" where
  "opt_str x = (case x of None \<Rightarrow> JNull | Some s \<Rightarrow> JStr s)"

text \<open>
  \<^verbatim>\<open>if since_timestamp: params["from"] = since_timestamp\<close>: the parameter is added for a
  timestamp that is neither \<^verbatim>\<open>None\<close> nor zero.
\<close>

definition since_param :: "int option \<Rightarrow> (string \<times> json) list" where
  "since_param since_timestamp =
     (case since_timestamp of
        None \<Rightarrow> []
      | Some t \<Rightarrow> if t = 0 then [] else [(''from'', JNum t)])"

definition api_headers :: "env \<Rightarrow> (string \<times> string option) list" where
  "api_headers env =
     [(''x-API-Id'', env ''IMPERVA_API_ID''),
      (''x-API-Key'', env ''IMPERVA_API_KEY''),
      (''Accept'', Some ''application/json'')]"

text \<open>\<^verbatim>\<open>not api_id\<close>: the variable is unset or empty.\<close>

definition missing :: "string option \<Rightarrow> bool" where
  "missing x = (case x of None \<Rightarrow> True | Some s \<Rightarrow> s = [])"

text \<open>
  \<^verbatim>\<open>get_imperva_incidents\<close>: the single fetch. The result holds the requests sent and
  what the call returns or raises.
\<close>

definition get_imperva_incidents ::
  "http \<Rightarrow> env \<Rightarrow> string option \<Rightarrow> int option \<Rightarrow> request list \<times> (error + json option)" where
  "get_imperva_incidents http env caid since_timestamp =
     (if missing (env ''IMPERVA_API_ID'') \<or> missing (env ''IMPERVA_API_KEY'')
      then ([], Inl ValueError)
      else
        let req = \<lparr>url = api_url,
                   params = [(''caid'', opt_str caid)] @ since_param since_timestamp,
                   headers = api_headers env\<rparr>
        in case http req of
             Inl e \<Rightarrow> ([req], Inl e)
           | Inr response \<Rightarrow>
               if status_code response = 200
               then (case json_body response of
                       None \<Rightarrow> ([req], Inl JSONDecodeError)
                     | Some data \<Rightarrow> ([req], Inr (Some data)))
               else ([req], Inr None))"

text \<open>The request of one iteration of the pagination loop.\<close>

definition page_request :: "env \<Rightarrow> string option \<Rightarrow> int option \<Rightarrow> int \<Rightarrow> int \<Rightarrow> request" where
  "page_request env caid since_timestamp page_size page =
     \<lparr>url = api_url,
      params = [(''caid'', opt_str caid), (''page'', JNum page), (''page_size'', JNum page_size)]
               @ since_param since_timestamp,
      headers = api_headers env\<rparr>"

text \<open>
  A single object counts as a one-element page and a falsy body as an empty one; what is
  left is iterated by \<^verbatim>\<open>all_incidents.extend\<close>.
\<close>

definition page_items :: "json \<Rightarrow> error + json list" where
  "page_items incidents =
     (case incidents of
        JObj kvs \<Rightarrow> Inr [incidents]
      | _ \<Rightarrow> if truthy incidents then py_iter incidents else Inr [])"

text \<open>
  The \<^verbatim>\<open>while more_incidents\<close> loop may run forever (every page full), so it takes
  fuel: \<open>Running\<close> is the loop still going after that many iterations. The requests sent
  so far are returned with the outcome.
\<close>

datatype 'a outcome = Returned 'a | Raised error | Running

fun fetch_loop ::
  "nat \<Rightarrow> http \<Rightarrow> env \<Rightarrow> string option \<Rightarrow> int option \<Rightarrow> int \<Rightarrow> int \<Rightarrow> json list \<Rightarrow> request list
   \<Rightarrow> request list \<times> json list outcome" where
  "fetch_loop 0 http env caid since_timestamp page_size page all_incidents sent =
     (sent, Running)"
| "fetch_loop (Suc fuel) http env caid since_timestamp page_size page all_incidents sent =
     (let req = page_request env caid since_timestamp page_size page;
          sent' = sent @ [req]
      in case http req of
           Inl e \<Rightarrow> (sent', Raised e)
         | Inr response \<Rightarrow>
             if status_code response = 200
             then (case json_body response of
                     None \<Rightarrow> (sent', Raised JSONDecodeError)
                   | Some incidents \<Rightarrow>
                       (case page_items incidents of
                          Inl e \<Rightarrow> (sent', Raised e)
                        | Inr items \<Rightarrow>
                            if int (length items) < page_size
                            then (sent', Returned (all_incidents @ items))
                            else fetch_loop fuel http env caid since_timestamp page_size
                                   (page + 1) (all_incidents @ items) sent'))
             else (sent', Returned all_incidents))"

definition fetch_all_incidents_with_pagination ::
  "nat \<Rightarrow> http \<Rightarrow> env \<Rightarrow> string option \<Rightarrow> int option \<Rightarrow> int
   \<Rightarrow> request list \<times> json list outcome" where
  "fetch_all_incidents_with_pagination fuel http env caid since_timestamp page_size =
     fetch_loop fuel http env caid since_timestamp page_size 1 [] []"

text \<open>A server with a full first page and a short second page, for page size 2.\<close>

definition two_pages :: http where
  "two_pages req =
     (if map_of (params req) ''page'' = Some (JNum 1)
      then Inr \<lparr>status_code = 200, json_body = Some (JArr [JObj [(''id'', JNum 1)], JObj [(''id'', JNum 2)]])\<rparr>
      else if map_of (params req) ''page'' = Some (JNum 2)
      then Inr \<lparr>status_code = 200, json_body = Some (JArr [JObj [(''id'', JNum 3)]])\<rparr>
      else Inr \<lparr>status_code = 500, json_body = None\<rparr>)"

section \<open>Files\<close>

text \<open>
  The files the program keeps: plain-text files by path, with their characters, and the
  detailed IP file, which is only ever read by \<^verbatim>\<open>json.load\<close> and written by
  \<^verbatim>\<open>json.dump\<close>, by the document it holds (\<open>Malformed\<close> when \<^verbatim>\<open>json.load\<close> raises
  \<^verbatim>\<open>JSONDecodeError\<close>). A path is a regular file when the map has it
  (\<^verbatim>\<open>os.path.isfile\<close>). In every call of the program the plain-text files and the
  detailed file have different paths.
\<close>

datatype doc = Malformed | Parsed json

record filesystem =
  texts :: "string \<rightharpoonup> string"
  docs :: "string \<rightharpoonup> doc"

text \<open>
  The path of an output file: the generated name when no file name is given, the name
  itself when it starts with \<^verbatim>\<open>data\<close>, and the name under \<^verbatim>\<open>data/\<close> otherwise.
\<close>

definition data_path :: "string option \<Rightarrow> string \<Rightarrow> string" where
  "data_path filename generated =
     (case filename of
        None \<Rightarrow> generated
      | Some f \<Rightarrow>
          if f = [] then generated
          else if startswith f ''data'' then f
          else ''data/'' @ f)"

subsection \<open>The watermark\<close>

text \<open>
  \<^verbatim>\<open>int(s)\<close> on a string: surrounding whitespace is ignored, then an optional sign and
  decimal digits, where single underscores may separate digits. \<^verbatim>\<open>str(i)\<close> is the
  decimal representation. The interpreter's limit on the number of digits is not modelled.
\<close>

definition is_digit :: "char \<Rightarrow> bool" where
  "is_digit c = (48 \<le> (of_char c :: nat) \<and> (of_char c :: nat) \<le> 57)"

definition digit_value :: "char \<Rightarrow> nat" where
  "digit_value c = of_char c - 48"

definition digit_char :: "nat \<Rightarrow> char" where
  "digit_char d = char_of (48 + d)"

fun parse_digits :: "nat \<Rightarrow> string \<Rightarrow> nat option" where
  "parse_digits acc [] = Some acc"
| "parse_digits acc (c # s) =
     (if is_digit c then parse_digits (10 * acc + digit_value c) s
      else if c = CHR ''_''
      then (case s of
              [] \<Rightarrow> None
            | d # s' \<Rightarrow> if is_digit d then parse_digits (10 * acc + digit_value d) s' else None)
      else None)"

definition parse_nat :: "string \<Rightarrow> nat option" where
  "parse_nat s =
     (case s of
        [] \<Rightarrow> None
      | c # s' \<Rightarrow> if is_digit c then parse_digits (digit_value c) s' else None)"

definition py_int :: "string \<Rightarrow> int option" where
  "py_int s =
     (case strip s of
        [] \<Rightarrow> None
      | c # r \<Rightarrow>
          if c = CHR ''-'' then map_option (\<lambda>n. - int n) (parse_nat r)
          else if c = CHR ''+'' then map_option int (parse_nat r)
          else map_option int (parse_nat (c # r)))"

function digits_of :: "nat \<Rightarrow> string" where
  "digits_of n = (if n < 10 then [digit_char n] else digits_of (n div 10) @ [digit_char (n mod 10)])"
  by pat_completeness auto
termination
  by (relation "measure id") auto

definition str_int :: "int \<Rightarrow> string" where
  "str_int i = (if i < 0 then CHR ''-'' # digits_of (nat (- i)) else digits_of (nat i))"

text \<open>
  \<^verbatim>\<open>get_last_query_timestamp\<close> reads \<^verbatim>\<open>data/last_query_timestamp.txt\<close> unless a file
  name is given, and returns \<^verbatim>\<open>None\<close> when the file does not exist.
  \<^verbatim>\<open>save_last_query_timestamp\<close> writes the decimal timestamp; \<open>timestamp_str\<close> is the
  formatted current time for the generated name.
\<close>

definition watermark_path :: "string option \<Rightarrow> string" where
  "watermark_path filename =
     (case filename of
        None \<Rightarrow> ''data/last_query_timestamp.txt''
      | Some f \<Rightarrow> if f = [] then ''data/last_query_timestamp.txt'' else f)"

definition get_last_query_timestamp :: "filesystem \<Rightarrow> string option \<Rightarrow> error + int option" where
  "get_last_query_timestamp fs filename =
     (case texts fs (watermark_path filename) of
        None \<Rightarrow> Inr None
      | Some content \<Rightarrow>
          (case py_int (strip content) of
             None \<Rightarrow> Inl ValueError
           | Some timestamp \<Rightarrow> Inr (Some timestamp)))"

definition save_last_query_timestamp ::
  "filesystem \<Rightarrow> string \<Rightarrow> int \<Rightarrow> string option \<Rightarrow> filesystem" where
  "save_last_query_timestamp fs timestamp_str timestamp filename =
     (let path = data_path filename (''data/'' @ timestamp_str @ ''_last_query_timestamp.txt'')
      in fs\<lparr>texts := (texts fs)(path \<mapsto> str_int timestamp)\<rparr>)"


text \<open>
  A string that \<^verbatim>\<open>strip\<close> leaves unchanged and that is not empty; and a character that
  cannot occur in an integer literal.
\<close>

definition clean :: "string \<Rightarrow> bool" where
  "clean t = (t \<noteq> [] \<and> \<not> is_space (hd t) \<and> \<not> is_space (last t))"

declare digits_of.simps [simp del]

definition stray :: "char \<Rightarrow> bool" where
  "stray c = (\<not> is_digit c \<and> \<not> is_space c \<and> c \<noteq> CHR ''-'' \<and> c \<noteq> CHR ''+'' \<and> c \<noteq> CHR ''_'')"

subsection \<open>The list files and the detailed file\<close>

text \<open>
  A list file is read in text mode: \<^verbatim>\<open>\r\n\<close> and \<^verbatim>\<open>\r\<close> become \<^verbatim>\<open>\n\<close>, and
  \<^verbatim>\<open>readlines\<close> cuts the text after every \<^verbatim>\<open>\n\<close>. The entries read are the stripped
  non-blank lines. Writing stores each non-blank entry followed by \<^verbatim>\<open>\n\<close>, in sorted
  order (the platform's line separator is taken to be \<^verbatim>\<open>\n\<close>).
\<close>

definition LF :: char where "LF = CHR 0x0A"
definition CR :: char where "CR = CHR 0x0D"

fun universal_newlines :: "bool \<Rightarrow> string \<Rightarrow> string" where
  "universal_newlines after_cr [] = []"
| "universal_newlines after_cr (c # s) =
     (if c = CR then LF # universal_newlines True s
      else if c = LF \<and> after_cr then universal_newlines False s
      else c # universal_newlines False s)"

fun split_lines :: "string \<Rightarrow> string list" where
  "split_lines [] = []"
| "split_lines (c # s) =
     (if c = LF then [c] # split_lines s
      else (case split_lines s of [] \<Rightarrow> [[c]] | l # ls \<Rightarrow> (c # l) # ls))"

definition readlines :: "string \<Rightarrow> string list" where
  "readlines content = split_lines (universal_newlines False content)"

definition read_entries :: "string \<Rightarrow> string set" where
  "read_entries content = set (map strip (filter (\<lambda>line. strip line \<noteq> []) (readlines content)))"

definition write_entries :: "string set \<Rightarrow> string" where
  "write_entries entries =
     concat (map (\<lambda>e. e @ [LF]) (filter (\<lambda>e. strip e \<noteq> []) (sorted_list_of_set entries)))"

text \<open>
  \<^verbatim>\<open>save_domains_to_file(domains, logger, filename)\<close>; \<open>timestamp\<close> is the formatted
  current time, used when no file name is given. The result is the new state of the files
  and the returned \<^verbatim>\<open>all_domains\<close>.
\<close>

definition save_domains_to_file ::
  "filesystem \<Rightarrow> string \<Rightarrow> string set \<Rightarrow> string option \<Rightarrow> filesystem \<times> string set" where
  "save_domains_to_file fs timestamp domains filename =
     (let path = data_path filename (''data/'' @ timestamp @ ''_domain_data.txt'');
          existing_domains = (case texts fs path of None \<Rightarrow> {} | Some content \<Rightarrow> read_entries content);
          new_domains = Set.filter (\<lambda>domain. strip domain \<noteq> []) domains;
          all_domains = existing_domains \<union> new_domains
      in (fs\<lparr>texts := (texts fs)(path \<mapsto> write_entries all_domains)\<rparr>, all_domains))"

text \<open>
  \<^verbatim>\<open>set(v)\<close> iterates \<open>v\<close> and needs hashable elements; two elements are the same
  element when they are equal in Python (\<^verbatim>\<open>True == 1\<close>, \<^verbatim>\<open>False == 0\<close>). A set is kept
  as the list of its elements in insertion order; \<^verbatim>\<open>list(a.union(b))\<close> lists the
  elements in an order that Python leaves unspecified, the parameter \<open>order\<close> below.
\<close>

fun hashable :: "json \<Rightarrow> bool" where
  "hashable (JArr xs) = False"
| "hashable (JObj kvs) = False"
| "hashable v = True"

fun py_eq :: "json \<Rightarrow> json \<Rightarrow> bool" where
  "py_eq (JBool b) (JNum n) = (n = (if b then 1 else 0))"
| "py_eq (JNum n) (JBool b) = (n = (if b then 1 else 0))"
| "py_eq a b = (a = b)"

definition set_add :: "json list \<Rightarrow> json \<Rightarrow> json list" where
  "set_add elems x = (if list_ex (py_eq x) elems then elems else elems @ [x])"

definition py_set :: "json \<Rightarrow> error + json list" where
  "py_set v =
     and_then (py_iter v) (\<lambda>items.
       if list_all hashable items then Inr (foldl set_add [] items) else Inl TypeError)"

text \<open>\<^verbatim>\<open>d[k] = v\<close> for a string \<open>k\<close>: only a dict takes it.\<close>

fun py_setitem :: "json \<Rightarrow> string \<Rightarrow> json \<Rightarrow> error + json" where
  "py_setitem (JObj kvs) k v = Inr (JObj (AList.update k v kvs))"
| "py_setitem d k v = Inl TypeError"

text \<open>
  The body and the loop of \<^verbatim>\<open>for ip, reputation in ip_data.items()\<close>, which merges the
  new data into the document read from the detailed file.
\<close>

definition detail_step ::
  "(json list \<Rightarrow> json list) \<Rightarrow> json \<Rightarrow> string \<times> json \<Rightarrow> error + json" where
  "detail_step order existing_detailed item =
     (let ip = fst item; reputation = snd item
      in and_then (py_in ip existing_detailed) (\<lambda>present.
           if present
           then and_then (py_getitem existing_detailed ip) (\<lambda>old.
                  and_then (py_set old) (\<lambda>existing_rep.
                    and_then (py_set reputation) (\<lambda>new_rep.
                      py_setitem existing_detailed ip
                        (JArr (order (foldl set_add existing_rep new_rep))))))
           else py_setitem existing_detailed ip reputation))"

fun detail_loop ::
  "(json list \<Rightarrow> json list) \<Rightarrow> json \<Rightarrow> (string \<times> json) list \<Rightarrow> error + json" where
  "detail_loop order existing_detailed [] = Inr existing_detailed"
| "detail_loop order existing_detailed (item # items) =
     and_then (detail_step order existing_detailed item) (\<lambda>d. detail_loop order d items)"

text \<open>
  \<^verbatim>\<open>save_ip_data_to_file(ip_data, logger, filename, detailed_filename)\<close>. The list file
  is rewritten first; an exception in the merge loop leaves the detailed file as it was. A
  missing or malformed detailed file counts as the empty dict.
\<close>

definition save_ip_data_to_file ::
  "filesystem \<Rightarrow> string \<Rightarrow> (json list \<Rightarrow> json list) \<Rightarrow> ip_data \<Rightarrow> string option \<Rightarrow> string option
   \<Rightarrow> filesystem \<times> (error + string set)" where
  "save_ip_data_to_file fs timestamp order ip_data filename detailed_filename =
     (let path = data_path filename (''data/'' @ timestamp @ ''_ip_data.txt'');
          detailed_path = data_path detailed_filename (''data/'' @ timestamp @ ''_ip_detailed.json'');
          existing_ips = (case texts fs path of None \<Rightarrow> {} | Some content \<Rightarrow> read_entries content);
          new_ips = Set.filter (\<lambda>ip. strip ip \<noteq> []) (set (map fst ip_data));
          all_ips = existing_ips \<union> new_ips;
          fs1 = fs\<lparr>texts := (texts fs)(path \<mapsto> write_entries all_ips)\<rparr>;
          existing_detailed =
            (case docs fs1 detailed_path of
               None \<Rightarrow> JObj []
             | Some Malformed \<Rightarrow> JObj []
             | Some (Parsed d) \<Rightarrow> d)
      in case detail_loop order existing_detailed ip_data of
           Inl e \<Rightarrow> (fs1, Inl e)
         | Inr d \<Rightarrow> (fs1\<lparr>docs := (docs fs1)(detailed_path \<mapsto> Parsed d)\<rparr>, Inr all_ips))"

subsection \<open>The report and the entry point\<close>

definition summary_text :: "string \<Rightarrow> string \<Rightarrow> nat \<Rightarrow> nat \<Rightarrow> nat \<Rightarrow> string" where
  "summary_text current_time timestamp ip_count domain_count incident_count =
     concat (map (\<lambda>line. line @ [LF])
       [''Imperva Incident Data Extraction Summary'',
        ''Report Generated: '' @ current_time,
        [],
        ''Data Collection Information:'',
        ''---------------------------'',
        ''Total Incidents Processed: '' @ str_int (int incident_count),
        ''Unique IP Addresses Found: '' @ str_int (int ip_count),
        ''Unique Domains Found: '' @ str_int (int domain_count),
        [],
        ''File Information:'',
        ''---------------'',
        ''IP Address List: data/'' @ timestamp @ ''_ip_data.txt'',
        ''IP Address Details: data/'' @ timestamp @ ''_ip_detailed.json'',
        ''Domain List: data/'' @ timestamp @ ''_domain_data.txt'',
        ''Timestamp File: data/'' @ timestamp @ ''_last_query_timestamp.txt'',
        [],
        ''This report was automatically generated by the Imperva Data Extractor tool.''])"

definition create_summary_report ::
  "filesystem \<Rightarrow> string \<Rightarrow> nat \<Rightarrow> nat \<Rightarrow> nat \<Rightarrow> string \<Rightarrow> filesystem" where
  "create_summary_report fs current_time ip_count domain_count incident_count timestamp =
     fs\<lparr>texts := (texts fs)(''reports/'' @ timestamp @ ''_summary.txt'' \<mapsto>
            summary_text current_time timestamp ip_count domain_count incident_count)\<rparr>"

text \<open>
  What a run reads from the clock: the current time in milliseconds, the time formatted for
  the file names of the entry point (\<^verbatim>\<open>%Y-%m-%d-%H%M%S\<close>), the time formatted inside the
  save functions, the time printed in the report, and whether
  \<^verbatim>\<open>datetime.fromtimestamp(t / 1000)\<close> returns for a watermark \<open>t\<close> (it raises when the
  date is out of range). The entry point catches every exception and logs it; a run ends
  \<open>Saved\<close>, with \<open>Nothing\<close> to save, \<open>Failed\<close> with the exception caught, or
  \<open>Unfinished\<close> when the fetch loop is still running.
\<close>

record clock =
  now_ms :: int
  file_stamp :: string
  call_stamp :: string
  report_time :: string
  fromtimestamp_ok :: "int \<Rightarrow> bool"

datatype run_status = Saved | Nothing | Failed error | Unfinished

record run =
  files :: filesystem
  requests :: "request list"
  status :: run_status

text \<open>
  The body of \<^verbatim>\<open>if incidents:\<close> in the entry point: extract, save the IP files, the
  domain file and the watermark under names made from the time stamp, and write the report.
\<close>

definition save_results ::
  "clock \<Rightarrow> (json list \<Rightarrow> json list) \<Rightarrow> filesystem \<Rightarrow> json list \<Rightarrow> filesystem \<times> run_status" where
  "save_results clock order fs incidents =
     (case extract_data_from_incidents (JArr incidents) of
        Inl e \<Rightarrow> (fs, Failed e)
      | Inr extracted \<Rightarrow>
          let timestamp = file_stamp clock
          in (case save_ip_data_to_file fs (call_stamp clock) order (fst extracted)
                     (Some (timestamp @ ''_ip_data.txt''))
                     (Some (timestamp @ ''_ip_detailed.json'')) of
                (fs1, Inl e) \<Rightarrow> (fs1, Failed e)
              | (fs1, Inr all_ips) \<Rightarrow>
                  let saved = save_domains_to_file fs1 (call_stamp clock) (snd extracted)
                                (Some (timestamp @ ''_domain_data.txt''));
                      fs2 = fst saved;
                      all_domains = snd saved;
                      fs3 = save_last_query_timestamp fs2 (call_stamp clock) (now_ms clock)
                              (Some (timestamp @ ''_last_query_timestamp.txt''));
                      fs4 = create_summary_report fs3 (report_time clock) (card all_ips)
                              (card all_domains) (length incidents) timestamp
                  in (fs4, Saved)))"

text \<open>
  The entry point: load the watermark (logging it, when it is set, formats it as a date),
  fetch with the default page size 100, and save when the fetch returned incidents.
\<close>

definition main ::
  "nat \<Rightarrow> http \<Rightarrow> env \<Rightarrow> clock \<Rightarrow> (json list \<Rightarrow> json list) \<Rightarrow> filesystem \<Rightarrow> run" where
  "main fuel http env clock order fs =
     (case get_last_query_timestamp fs None of
        Inl e \<Rightarrow> \<lparr>files = fs, requests = [], status = Failed e\<rparr>
      | Inr last_timestamp \<Rightarrow>
          if (case last_timestamp of
                None \<Rightarrow> False
              | Some t \<Rightarrow> if t = 0 then False else if fromtimestamp_ok clock t then False else True)
          then \<lparr>files = fs, requests = [], status = Failed OverflowError\<rparr>
          else
            (case fetch_all_incidents_with_pagination fuel http env (env ''CLID'')
                    last_timestamp 100 of
               (sent, Running) \<Rightarrow> \<lparr>files = fs, requests = sent, status = Unfinished\<rparr>
             | (sent, Raised e) \<Rightarrow> \<lparr>files = fs, requests = sent, status = Failed e\<rparr>
             | (sent, Returned incidents) \<Rightarrow>
                 if incidents = [] then \<lparr>files = fs, requests = sent, status = Nothing\<rparr>
                 else
                   let saved = save_results clock order fs incidents
                   in \<lparr>files = fst saved, requests = sent, status = snd saved\<rparr>))"

text \<open>A clock reading and a server with no incidents, for concrete runs.\<close>

definition sample_clock :: clock where
  "sample_clock =
     \<lparr>now_ms = 1700000600000, file_stamp = ''2023-11-14-222320'',
      call_stamp = ''2023-11-14-22-23-20'', report_time = ''2023-11-14 22:23:20'',
      fromtimestamp_ok = (\<lambda>t. True)\<rparr>"

definition no_incidents :: http where
  "no_incidents req = Inr \<lparr>status_code = 200, json_body = Some (JArr [])\<rparr>"

text \<open>
  A server whose only page holds one incident, and the path to which the entry point has
  \<^verbatim>\<open>save_last_query_timestamp\<close> write the watermark (the file name is made from the time
  stamp of the entry point).
\<close>

definition one_incident :: http where
  "one_incident req =
     Inr \<lparr>status_code = 200,
          json_body = Some (JArr [JObj [(''dominant_attack_ip'',
                                          JObj [(''ip'', JStr ''1.2.3.4''), (''reputation'', JArr [JStr ''bot''])]),
                                        (''dominant_attacked_host'', JObj [(''value'', JStr ''evil.example.com'')])]])\<rparr>"

definition stamp_file :: "clock \<Rightarrow> string" where
  "stamp_file clock =
     data_path (Some (file_stamp clock @ ''_last_query_timestamp.txt''))
       (''data/'' @ call_stamp clock @ ''_last_query_timestamp.txt'')"

subsection \<open>Merging the same data again\<close>






fun elems :: "json \<Rightarrow> json set" where
  "elems (JArr xs) = set xs"
| "elems v = {}"

definition tag_sets :: "(string \<times> json) list \<Rightarrow> (string \<times> json set) list" where
  "tag_sets kvs = map (\<lambda>kv. (fst kv, elems (snd kv))) kvs"






section \<open>Properties of the extractor\<close>

lemma and_then_simps:
  "and_then (Inl e) f = Inl e"
  "and_then (Inr x) f = f x"
  by (simp_all add: and_then_def)

subsection \<open>Storing into a dict and taking the union\<close>

lemma update_swap_in:
  "k \<noteq> k' \<Longrightarrow> k \<in> fst ` set X \<Longrightarrow>
   AList.update k v (AList.update k' v' X) = AList.update k' v' (AList.update k v X)"
  by (induction X) auto

lemma update_fold_commute:
  "k \<notin> fst ` set q \<Longrightarrow> k \<in> fst ` set X \<Longrightarrow>
   AList.update k v (fold (\<lambda>kv. AList.update (fst kv) (snd kv)) q X)
     = fold (\<lambda>kv. AList.update (fst kv) (snd kv)) q (AList.update k v X)"
proof (induction q arbitrary: X)
  case Nil
  then show ?case by simp
next
  case (Cons a q)
  have ne: "k \<noteq> fst a" and nq: "k \<notin> fst ` set q" using Cons.prems(1) by auto
  have inX: "k \<in> fst ` set (AList.update (fst a) (snd a) X)"
    using Cons.prems(2) by (simp add: AList.dom_update)
  have "AList.update k v (fold (\<lambda>kv. AList.update (fst kv) (snd kv)) (a # q) X)
      = fold (\<lambda>kv. AList.update (fst kv) (snd kv)) q
          (AList.update k v (AList.update (fst a) (snd a) X))"
    using Cons.IH [OF nq inX] by simp
  also have "AList.update k v (AList.update (fst a) (snd a) X)
      = AList.update (fst a) (snd a) (AList.update k v X)"
    by (rule update_swap_in [OF ne Cons.prems(2)])
  finally show ?case by simp
qed

lemma dict_union_update:
  assumes "distinct (map fst b)"
  shows "dict_union a (AList.update k v b) = AList.update k v (dict_union a b)"
  using assms
proof (induction b arbitrary: a)
  case Nil
  then show ?case by (simp add: dict_union_def)
next
  case (Cons p b)
  show ?case
  proof (cases "fst p = k")
    case True
    have nk: "k \<notin> fst ` set b" using Cons.prems True by auto
    have ink: "k \<in> fst ` set (AList.update k (snd p) a)" by (simp add: AList.dom_update)
    have "AList.update k v (dict_union a (p # b))
        = fold (\<lambda>kv. AList.update (fst kv) (snd kv)) b
            (AList.update k v (AList.update k (snd p) a))"
      using update_fold_commute [OF nk ink] True by (simp add: dict_union_def)
    then show ?thesis using True by (simp add: dict_union_def)
  next
    case False
    then show ?thesis using Cons by (simp add: dict_union_def)
  qed
qed

lemma dict_union_Nil: "dict_union a [] = a"
  by (simp add: dict_union_def)

text \<open>As a map, the union with a dict (distinct keys) is the override \<open>++\<close> of the library.\<close>

lemma map_of_dict_union:
  "distinct (map fst b) \<Longrightarrow> map_of (dict_union a b) = map_of a ++ map_of b"
proof (induction b arbitrary: a)
  case Nil
  then show ?case by (simp add: dict_union_def)
next
  case (Cons p b)
  have nk: "map_of b (fst p) = None"
    using Cons.prems by (simp add: map_of_eq_None_iff)
  have "map_of (dict_union a (p # b)) = map_of (dict_union (AList.update (fst p) (snd p) a) b)"
    by (simp add: dict_union_def)
  also have "\<dots> = map_of (AList.update (fst p) (snd p) a) ++ map_of b"
    using Cons.prems by (intro Cons.IH) simp
  also have "\<dots> = map_of a ++ map_of (p # b)"
    using nk
    by (cases p) (auto simp: AList.update_conv' map_add_def fun_eq_iff split: option.splits)
  finally show ?case .
qed

subsection \<open>One incident\<close>

lemma attack_ip_step_union:
  "distinct (map fst b) \<Longrightarrow>
   attack_ip_step i (dict_union a b) = and_then (attack_ip_step i b) (\<lambda>b'. Inr (dict_union a b'))"
  by (simp add: attack_ip_step_def and_then_def dict_union_update
      split: sum.splits option.splits)

lemma attack_ip_step_distinct:
  "attack_ip_step i b = Inr b' \<Longrightarrow> distinct (map fst b) \<Longrightarrow> distinct (map fst b')"
  by (auto simp: attack_ip_step_def and_then_def AList.distinct_update
      split: sum.splits option.splits if_splits)

lemma attacked_host_step_union:
  "attacked_host_step i (da \<union> db) = and_then (attacked_host_step i db) (\<lambda>d. Inr (da \<union> d))"
  by (simp add: attacked_host_step_def and_then_def split: sum.splits option.splits)

lemma incident_step_union:
  "distinct (map fst b) \<Longrightarrow>
   incident_step i (dict_union a b, da \<union> db)
     = and_then (incident_step i (b, db)) (\<lambda>st. Inr (dict_union a (fst st), da \<union> snd st))"
  by (simp add: incident_step_def attack_ip_step_union attacked_host_step_union and_then_def
      split: sum.splits)

lemma incident_step_distinct:
  "incident_step i st = Inr st' \<Longrightarrow> distinct (map fst (fst st)) \<Longrightarrow>
   distinct (map fst (fst st'))"
  by (auto simp: incident_step_def and_then_def split: sum.splits dest: attack_ip_step_distinct)

subsection \<open>The loop\<close>

lemma extract_loop_distinct:
  "extract_loop xs st = Inr st' \<Longrightarrow> distinct (map fst (fst st)) \<Longrightarrow>
   distinct (map fst (fst st'))"
proof (induction xs arbitrary: st)
  case Nil
  then show ?case by simp
next
  case (Cons x xs)
  then show ?case
    by (auto simp: and_then_def split: sum.splits dest: incident_step_distinct)
qed

lemma extract_loop_union:
  "distinct (map fst b) \<Longrightarrow>
   extract_loop xs (dict_union a b, da \<union> db)
     = and_then (extract_loop xs (b, db)) (\<lambda>st. Inr (dict_union a (fst st), da \<union> snd st))"
proof (induction xs arbitrary: b db)
  case Nil
  then show ?case by (simp add: and_then_def)
next
  case (Cons x xs)
  show ?case
  proof (cases "incident_step x (b, db)")
    case (Inl e)
    then show ?thesis using Cons.prems by (simp add: incident_step_union and_then_def)
  next
    case (Inr st)
    have d: "distinct (map fst (fst st))"
      using incident_step_distinct [OF Inr] Cons.prems by simp
    show ?thesis
      using Inr Cons.prems Cons.IH [OF d, of "snd st"]
      by (simp add: incident_step_union and_then_def)
  qed
qed

lemma extract_loop_append:
  "extract_loop (xs @ ys) st = and_then (extract_loop xs st) (extract_loop ys)"
  by (induction xs arbitrary: st) (auto simp: and_then_def split: sum.splits)

text \<open>
  Claim C3. Extraction is compositional over concatenation: extracting the incident
  sequence \<open>A @ B\<close> gives the same result as extracting \<open>A\<close> and \<open>B\<close> separately and
  taking the union of the two results, the set union of the domains and the dict union of
  the IP maps in which the entries of \<open>B\<close> replace those of \<open>A\<close> for the same IP. An
  exception raised while extracting \<open>A\<close>, or else \<open>B\<close>, is the exception raised on
  \<open>A @ B\<close>.
\<close>

theorem extract_concat:
  "extract_data_from_incidents (JArr (A @ B)) =
     and_then (extract_data_from_incidents (JArr A)) (\<lambda>ra.
       and_then (extract_data_from_incidents (JArr B)) (\<lambda>rb.
         Inr (dict_union (fst ra) (fst rb), snd ra \<union> snd rb)))"
proof (cases "extract_loop A ([], {})")
  case (Inl e)
  then show ?thesis
    by (simp add: extract_data_from_incidents_def extract_loop_append and_then_def)
next
  case (Inr ra)
  have "extract_loop B ra = extract_loop B (dict_union (fst ra) [], snd ra \<union> {})"
    by (simp add: dict_union_Nil)
  also have "\<dots> = and_then (extract_loop B ([], {}))
      (\<lambda>st. Inr (dict_union (fst ra) (fst st), snd ra \<union> snd st))"
    by (rule extract_loop_union) simp
  finally show ?thesis using Inr
    by (simp add: extract_data_from_incidents_def extract_loop_append and_then_def)
qed

subsection \<open>Repeated addresses\<close>

lemma py_nonblank_Some: "py_nonblank v = Inr (Some s) \<Longrightarrow> v = JStr s \<and> strip s \<noteq> []"
  by (cases v) (auto split: if_splits)

lemma attack_ip_step_other:
  assumes "attack_ip_step z d = Inr d'"
    and "\<forall>n. py_getitem z ''dominant_attack_ip'' = Inr (JObj n) \<longrightarrow> map_of n ''ip'' \<noteq> Some (JStr s)"
  shows "map_of d' s = map_of d s"
proof (cases "py_getitem z ''dominant_attack_ip''")
  case (Inl e)
  then show ?thesis using assms(1)
    by (auto simp: attack_ip_step_def and_then_def split: sum.splits if_splits)
next
  case (Inr nested)
  show ?thesis
  proof (cases nested)
    case (JObj n)
    then have ne: "map_of n ''ip'' \<noteq> Some (JStr s)" using assms(2) Inr by simp
    show ?thesis using assms(1) Inr JObj ne
      by (auto simp: attack_ip_step_def and_then_def AList.update_conv'
          split: sum.splits if_splits option.splits dest!: py_nonblank_Some)
  qed (use assms(1) Inr in \<open>auto simp: attack_ip_step_def and_then_def split: sum.splits if_splits option.splits\<close>)
qed

lemma attack_ip_step_records:
  assumes "py_getitem i ''dominant_attack_ip'' = Inr (JObj n)"
    and "map_of n ''ip'' = Some (JStr s)" and "strip s \<noteq> []"
  shows "attack_ip_step i d =
     Inr (AList.update s (case map_of n ''reputation'' of None \<Rightarrow> JArr [] | Some r \<Rightarrow> r) d)"
proof -
  obtain kvs where i: "i = JObj kvs" using assms(1) by (cases i) auto
  have k: "map_of kvs ''dominant_attack_ip'' = Some (JObj n)"
    using assms(1) i by (auto split: option.splits)
  have in1: "''dominant_attack_ip'' \<in> fst ` set kvs"
    using k by (metis map_of_eq_None_iff option.distinct(1))
  have in2: "''ip'' \<in> fst ` set n"
    using assms(2) by (metis map_of_eq_None_iff option.distinct(1))
  have ne: "s \<noteq> []" using assms(3) by (auto simp: strip_def)
  show ?thesis
    using i k in1 in2 ne assms
    by (simp add: attack_ip_step_def and_then_def)
qed

lemma extract_loop_other:
  assumes "extract_loop zs st = Inr st'"
    and "\<forall>z\<in>set zs. \<forall>n. py_getitem z ''dominant_attack_ip'' = Inr (JObj n) \<longrightarrow>
           map_of n ''ip'' \<noteq> Some (JStr s)"
  shows "map_of (fst st') s = map_of (fst st) s"
  using assms
proof (induction zs arbitrary: st)
  case Nil
  then show ?case by simp
next
  case (Cons z zs)
  from Cons.prems(1) obtain d1 where a: "attack_ip_step z (fst st) = Inr d1"
    and rest: "\<exists>ds. extract_loop zs (d1, ds) = Inr st'"
    by (auto simp: incident_step_def and_then_def split: sum.splits)
  from rest obtain ds where r: "extract_loop zs (d1, ds) = Inr st'" by blast
  have "map_of (fst st') s = map_of (fst (d1, ds)) s"
    using Cons.IH [OF r] Cons.prems(2) by simp
  moreover have "map_of d1 s = map_of (fst st) s"
    using attack_ip_step_other [OF a] Cons.prems(2) by simp
  ultimately show ?case by simp
qed

text \<open>
  Claim C9. Within one extraction pass the latest incident wins: when the sequence holds
  two incidents whose nested \<^verbatim>\<open>dominant_attack_ip\<close> object has the same non-blank
  \<^verbatim>\<open>ip\<close> string and no incident after the later one records that IP again, the
  returned dict maps the IP to exactly the reputation value of the later incident (the
  earlier one is overwritten, not merged), and that value is the empty list when the later
  incident has no \<^verbatim>\<open>reputation\<close> field.
\<close>

theorem latest_wins:
  assumes run: "extract_data_from_incidents (JArr (pre @ [i1] @ mid @ [i2] @ post)) = Inr (ip_data, domains)"
    and i1: "py_getitem i1 ''dominant_attack_ip'' = Inr (JObj n1)" "map_of n1 ''ip'' = Some (JStr s)"
    and i2: "py_getitem i2 ''dominant_attack_ip'' = Inr (JObj n2)" "map_of n2 ''ip'' = Some (JStr s)"
    and nonblank: "strip s \<noteq> []"
    and post: "\<forall>z\<in>set post. \<forall>n. py_getitem z ''dominant_attack_ip'' = Inr (JObj n) \<longrightarrow>
           map_of n ''ip'' \<noteq> Some (JStr s)"
  shows "map_of ip_data s = Some (case map_of n2 ''reputation'' of None \<Rightarrow> JArr [] | Some r \<Rightarrow> r)"
proof -
  let ?rep = "case map_of n2 ''reputation'' of None \<Rightarrow> JArr [] | Some r \<Rightarrow> r"
  have "extract_loop ((pre @ [i1] @ mid) @ i2 # post) ([], {}) = Inr (ip_data, domains)"
    using run by (simp add: extract_data_from_incidents_def and_then_def)
  then obtain st where loop: "and_then (incident_step i2 st) (extract_loop post) = Inr (ip_data, domains)"
    by (auto simp: extract_loop_append and_then_def split: sum.splits)
  then obtain st2 where step: "incident_step i2 st = Inr st2"
    and tail: "extract_loop post st2 = Inr (ip_data, domains)"
    by (auto simp: and_then_def split: sum.splits)
  have "fst st2 = AList.update s ?rep (fst st)"
    using step attack_ip_step_records [OF i2 nonblank, of "fst st"]
    by (auto simp: incident_step_def and_then_def split: sum.splits)
  then have "map_of (fst st2) s = Some ?rep"
    by (simp add: AList.update_conv')
  then show ?thesis using extract_loop_other [OF tail post] by simp
qed

text \<open>
  An instance: two incidents for 1.2.3.4, the first tagged \<open>bot\<close>, the second without a
  reputation field, then an incident for another address.
\<close>

theorem latest_wins_witness:
  "extract_data_from_incidents
     (JArr ([] @ [JObj [(''dominant_attack_ip'',
                   JObj [(''ip'', JStr ''1.2.3.4''), (''reputation'', JArr [JStr ''bot''])])]]
            @ [] @ [JObj [(''dominant_attack_ip'', JObj [(''ip'', JStr ''1.2.3.4'')])]]
            @ [JObj [(''dominant_attack_ip'',
                   JObj [(''ip'', JStr ''5.6.7.8''), (''reputation'', JArr [JStr ''scanner''])])]]))
     = Inr ([(''1.2.3.4'', JArr []), (''5.6.7.8'', JArr [JStr ''scanner''])], {})
   \<and> map_of [(''1.2.3.4'', JArr []), (''5.6.7.8'', JArr [JStr ''scanner''])] ''1.2.3.4''
       = Some (JArr [])"
proof -
  let ?n1 = "[(''ip'', JStr ''1.2.3.4''), (''reputation'', JArr [JStr ''bot''])]"
  let ?n2 = "[(''ip'', JStr ''1.2.3.4'')]"
  let ?i3 = "JObj [(''dominant_attack_ip'',
                   JObj [(''ip'', JStr ''5.6.7.8''), (''reputation'', JArr [JStr ''scanner''])])]"
  let ?out = "[(''1.2.3.4'', JArr []), (''5.6.7.8'', JArr [JStr ''scanner''])]"
  have run: "extract_data_from_incidents
     (JArr ([] @ [JObj [(''dominant_attack_ip'', JObj ?n1)]] @ [] @ [JObj [(''dominant_attack_ip'', JObj ?n2)]]
            @ [?i3])) = Inr (?out, {})"
    by code_simp
  have nb: "strip ''1.2.3.4'' \<noteq> []" by code_simp
  have post: "\<forall>z\<in>set [?i3]. \<forall>n. py_getitem z ''dominant_attack_ip'' = Inr (JObj n) \<longrightarrow>
           map_of n ''ip'' \<noteq> Some (JStr ''1.2.3.4'')"
    by simp
  have "map_of ?out ''1.2.3.4'' = Some (case map_of ?n2 ''reputation'' of None \<Rightarrow> JArr [] | Some r \<Rightarrow> r)"
    by (rule latest_wins [OF run _ _ _ _ nb post, where ?n1.0 = ?n1]) simp_all
  then show ?thesis using run by simp
qed

subsection \<open>When the extractor raises\<close>

lemma in_keys_iff: "k \<in> fst ` set kvs \<longleftrightarrow> map_of kvs k \<noteq> None"
  by (simp add: map_of_eq_None_iff)

lemma attack_scalar:
  "map_of kvs ''dominant_attack_ip'' = Some v \<Longrightarrow> scalar v \<Longrightarrow>
   attack_ip_step (JObj kvs) d = Inl TypeError"
  by (cases v) (auto simp: attack_ip_step_def and_then_def scalar_def in_keys_iff)

lemma host_scalar:
  "map_of kvs ''dominant_attacked_host'' = Some v \<Longrightarrow> scalar v \<Longrightarrow>
   attacked_host_step (JObj kvs) d = Inl TypeError"
  by (cases v) (auto simp: attacked_host_step_def and_then_def scalar_def in_keys_iff)

lemma attack_string_skip:
  "map_of kvs ''dominant_attack_ip'' = Some (JStr s) \<Longrightarrow> \<not> substring ''ip'' s \<Longrightarrow>
   attack_ip_step (JObj kvs) d = Inr d"
  by (auto simp: attack_ip_step_def and_then_def in_keys_iff)

lemma host_string_skip:
  "map_of kvs ''dominant_attacked_host'' = Some (JStr s) \<Longrightarrow> \<not> substring ''value'' s \<Longrightarrow>
   attacked_host_step (JObj kvs) d = Inr d"
  by (auto simp: attacked_host_step_def and_then_def in_keys_iff)

lemma attack_absent:
  "map_of kvs ''dominant_attack_ip'' = None \<Longrightarrow> attack_ip_step (JObj kvs) d = Inr d"
  by (auto simp: attack_ip_step_def and_then_def in_keys_iff)

lemma host_absent:
  "map_of kvs ''dominant_attacked_host'' = None \<Longrightarrow> attacked_host_step (JObj kvs) d = Inr d"
  by (auto simp: attacked_host_step_def and_then_def in_keys_iff)

lemma field_ok_cases:
  assumes "field_ok k f"
  obtains "f = None"
    | n where "f = Some (JObj n)" "map_of n k = None"
    | n s where "f = Some (JObj n)" "map_of n k = Some (JStr s)"
proof (cases f)
  case None
  then show ?thesis using that by simp
next
  case (Some v)
  show ?thesis
  proof (cases v)
    case (JObj n)
    show ?thesis
    proof (cases "map_of n k")
      case None
      then show ?thesis using that Some JObj by simp
    next
      case (Some w)
      then show ?thesis using that \<open>f = Some v\<close> JObj assms
        by (cases w) (simp_all add: field_ok_def)
    qed
  qed (use assms Some in \<open>simp_all add: field_ok_def\<close>)
qed

lemma attack_field_ok:
  assumes "field_ok ''ip'' (map_of kvs ''dominant_attack_ip'')"
  shows "\<exists>d'. attack_ip_step (JObj kvs) d = Inr d'"
  using assms
proof (cases rule: field_ok_cases)
  case 1
  then show ?thesis by (simp add: attack_absent)
next
  case (2 n)
  then show ?thesis
    by (simp add: attack_ip_step_def and_then_def in_keys_iff)
next
  case (3 n s)
  then show ?thesis
    by (simp add: attack_ip_step_def and_then_def in_keys_iff)
qed

lemma host_field_ok:
  assumes "field_ok ''value'' (map_of kvs ''dominant_attacked_host'')"
  shows "\<exists>d'. attacked_host_step (JObj kvs) d = Inr d'"
  using assms
proof (cases rule: field_ok_cases)
  case 1
  then show ?thesis by (simp add: host_absent)
next
  case (2 n)
  then show ?thesis
    by (simp add: attacked_host_step_def and_then_def in_keys_iff)
next
  case (3 n s)
  then show ?thesis
    by (simp add: attacked_host_step_def and_then_def in_keys_iff)
qed

lemma well_formed_step: "well_formed i \<Longrightarrow> \<exists>st'. incident_step i st = Inr st'"
proof (cases i)
  case (JObj kvs)
  assume "well_formed i"
  then have a: "field_ok ''ip'' (map_of kvs ''dominant_attack_ip'')"
    and h: "field_ok ''value'' (map_of kvs ''dominant_attacked_host'')"
    using JObj by (simp_all add: well_formed_def)
  from attack_field_ok [OF a, of "fst st"] obtain d' where "attack_ip_step (JObj kvs) (fst st) = Inr d'" by blast
  moreover from host_field_ok [OF h, of "snd st"] obtain s' where "attacked_host_step (JObj kvs) (snd st) = Inr s'" by blast
  ultimately show ?thesis using JObj by (simp add: incident_step_def and_then_def)
qed (simp_all add: well_formed_def)

lemma well_formed_loop: "list_all well_formed xs \<Longrightarrow> \<exists>st'. extract_loop xs st = Inr st'"
proof (induction xs arbitrary: st)
  case Nil
  then show ?case by simp
next
  case (Cons x xs)
  then obtain st1 where "incident_step x st = Inr st1" using well_formed_step [of x st] by auto
  then show ?case using Cons by (simp add: and_then_def)
qed


lemma extract_cons_raise:
  "incident_step i st = Inl e \<Longrightarrow> extract_loop (i # post) st = Inl e"
  by (simp add: and_then_def)

text \<open>
  Claim C10, as amended. The extractor tolerates absent fields, and it raises for some
  non-dict nested values only. With \<^verbatim>\<open>dominant_attack_ip\<close> or \<^verbatim>\<open>dominant_attacked_host\<close>
  present as a number, a boolean or \<^verbatim>\<open>None\<close>, the membership test on the nested value
  raises \<^verbatim>\<open>TypeError\<close>. The extraction then ends with that \<^verbatim>\<open>TypeError\<close>, unless an
  earlier step has raised already: an incident before this one, or, for
  \<^verbatim>\<open>dominant_attacked_host\<close>, the attacking-IP part of the same incident, which runs first.
  A nested string that does not contain the looked-up key (\<^verbatim>\<open>ip\<close>, \<^verbatim>\<open>value\<close>) is skipped
  without an exception, as an absent field is. The extractor returns whenever every incident
  is a dict whose present nested fields are dicts with an absent or string entry.
\<close>

theorem extract_totality:
  "(map_of kvs ''dominant_attack_ip'' = Some v \<and> scalar v \<longrightarrow>
      attack_ip_step (JObj kvs) d = Inl TypeError
      \<and> extract_data_from_incidents (JArr (pre @ JObj kvs # post))
        = and_then (extract_data_from_incidents (JArr pre)) (\<lambda>r. Inl TypeError))
   \<and> (map_of kvs ''dominant_attacked_host'' = Some v \<and> scalar v \<longrightarrow>
      attacked_host_step (JObj kvs) ds = Inl TypeError
      \<and> extract_data_from_incidents (JArr (pre @ JObj kvs # post))
        = and_then (extract_data_from_incidents (JArr pre)) (\<lambda>r.
            and_then (attack_ip_step (JObj kvs) (fst r)) (\<lambda>d. Inl TypeError)))
   \<and> (map_of kvs ''dominant_attack_ip'' = Some (JStr s) \<and> \<not> substring ''ip'' s \<longrightarrow>
      attack_ip_step (JObj kvs) d = Inr d)
   \<and> (map_of kvs ''dominant_attacked_host'' = Some (JStr s) \<and> \<not> substring ''value'' s \<longrightarrow>
      attacked_host_step (JObj kvs) ds = Inr ds)
   \<and> (map_of kvs ''dominant_attack_ip'' = None \<and> map_of kvs ''dominant_attacked_host'' = None \<longrightarrow>
      incident_step (JObj kvs) st = Inr st)
   \<and> (list_all well_formed incidents \<longrightarrow>
      (\<exists>r. extract_data_from_incidents (JArr incidents) = Inr r))"
proof (intro conjI impI)
  assume a: "map_of kvs ''dominant_attack_ip'' = Some v \<and> scalar v"
  then show "attack_ip_step (JObj kvs) d = Inl TypeError" by (simp add: attack_scalar)
  have "incident_step (JObj kvs) st' = Inl TypeError" for st'
    using a by (simp add: incident_step_def attack_scalar and_then_def)
  then show "extract_data_from_incidents (JArr (pre @ JObj kvs # post))
        = and_then (extract_data_from_incidents (JArr pre)) (\<lambda>r. Inl TypeError)"
    by (simp add: extract_data_from_incidents_def extract_loop_append and_then_def
        split: sum.splits)
next
  assume a: "map_of kvs ''dominant_attacked_host'' = Some v \<and> scalar v"
  then show "attacked_host_step (JObj kvs) ds = Inl TypeError" by (simp add: host_scalar)
  have h: "attacked_host_step (JObj kvs) ds' = Inl TypeError" for ds'
    using a by (simp add: host_scalar)
  have "incident_step (JObj kvs) st'
      = and_then (attack_ip_step (JObj kvs) (fst st')) (\<lambda>d. Inl TypeError)" for st'
    by (simp add: incident_step_def h and_then_def)
  then show "extract_data_from_incidents (JArr (pre @ JObj kvs # post))
        = and_then (extract_data_from_incidents (JArr pre)) (\<lambda>r.
            and_then (attack_ip_step (JObj kvs) (fst r)) (\<lambda>d. Inl TypeError))"
    by (simp add: extract_data_from_incidents_def extract_loop_append and_then_def
        split: sum.splits)
next
  assume "map_of kvs ''dominant_attack_ip'' = Some (JStr s) \<and> \<not> substring ''ip'' s"
  then show "attack_ip_step (JObj kvs) d = Inr d" by (simp add: attack_string_skip)
next
  assume "map_of kvs ''dominant_attacked_host'' = Some (JStr s) \<and> \<not> substring ''value'' s"
  then show "attacked_host_step (JObj kvs) ds = Inr ds" by (simp add: host_string_skip)
next
  assume "map_of kvs ''dominant_attack_ip'' = None \<and> map_of kvs ''dominant_attacked_host'' = None"
  then show "incident_step (JObj kvs) st = Inr st"
    by (simp add: incident_step_def attack_absent host_absent and_then_def)
next
  assume "list_all well_formed incidents"
  then show "\<exists>r. extract_data_from_incidents (JArr incidents) = Inr r"
    using well_formed_loop [of incidents "([], {})"]
    by (simp add: extract_data_from_incidents_def and_then_def)
qed

text \<open>
  The claim as stated (the extractor returns only when every present nested field is a
  dict) fails on an incident that carries the address as a plain string.
\<close>

theorem nested_string_counterexample:
  "extract_data_from_incidents (JArr [JObj [(''dominant_attack_ip'', JStr ''1.2.3.4'')]])
     = Inr ([], {})
   \<and> \<not> nested_dicts (JObj [(''dominant_attack_ip'', JStr ''1.2.3.4'')])"
  by code_simp


text \<open>
  The theorem at concrete incidents: a number and \<^verbatim>\<open>None\<close> as nested values, a number
  as \<^verbatim>\<open>ip\<close> entry before a number as attacked host, plain strings, an unrelated key, and a
  well-formed incident.
\<close>

theorem extract_totality_witness:
  "attack_ip_step (JObj [(''dominant_attack_ip'', JNum 5)]) [] = Inl TypeError
   \<and> extract_data_from_incidents (JArr ([] @ JObj [(''dominant_attack_ip'', JNum 5)] # []))
     = Inl TypeError
   \<and> attacked_host_step (JObj [(''dominant_attacked_host'', JNull)]) {} = Inl TypeError
   \<and> extract_data_from_incidents
          (JArr ([] @ JObj [(''dominant_attacked_host'', JNull)] # [])) = Inl TypeError
   \<and> extract_data_from_incidents
          (JArr ([] @ JObj [(''dominant_attack_ip'', JObj [(''ip'', JNum 5)]),
                            (''dominant_attacked_host'', JNum 7)] # [])) = Inl AttributeError
   \<and> attack_ip_step (JObj [(''dominant_attack_ip'', JStr ''1.2.3.4'')]) [] = Inr []
   \<and> attacked_host_step (JObj [(''dominant_attacked_host'', JStr ''example.com'')]) {} = Inr {}
   \<and> incident_step (JObj [(''id'', JNum 7)]) ([], {}) = Inr ([], {})
   \<and> (\<exists>r. extract_data_from_incidents
          (JArr [JObj [(''dominant_attack_ip'', JObj [(''ip'', JStr ''1.2.3.4'')]),
                       (''dominant_attacked_host'', JObj [])]]) = Inr r)"
proof (intro conjI)
  have e: "extract_data_from_incidents (JArr []) = Inr ([], {})"
    by (simp add: extract_data_from_incidents_def and_then_def)
  show "attack_ip_step (JObj [(''dominant_attack_ip'', JNum 5)]) [] = Inl TypeError"
    using extract_totality [of "[(''dominant_attack_ip'', JNum 5)]" "JNum 5" "[]"]
    by (simp add: scalar_def)
  show "extract_data_from_incidents (JArr ([] @ JObj [(''dominant_attack_ip'', JNum 5)] # []))
     = Inl TypeError"
    using extract_totality [of "[(''dominant_attack_ip'', JNum 5)]" "JNum 5" "[]" "[]" "[]"]
    by (simp add: scalar_def e and_then_def)
  show "attacked_host_step (JObj [(''dominant_attacked_host'', JNull)]) {} = Inl TypeError"
    using extract_totality [of "[(''dominant_attacked_host'', JNull)]" JNull _ _ _ "{}"]
    by (simp add: scalar_def)
  have "attack_ip_step (JObj [(''dominant_attacked_host'', JNull)]) [] = Inr []"
    by (simp add: attack_absent)
  then show "extract_data_from_incidents
          (JArr ([] @ JObj [(''dominant_attacked_host'', JNull)] # [])) = Inl TypeError"
    using extract_totality [of "[(''dominant_attacked_host'', JNull)]" JNull _ "[]" "[]"]
    by (simp add: scalar_def e and_then_def)
  have "attack_ip_step (JObj [(''dominant_attack_ip'', JObj [(''ip'', JNum 5)]),
                            (''dominant_attacked_host'', JNum 7)]) [] = Inl AttributeError"
    by (simp add: attack_ip_step_def and_then_def)
  then show "extract_data_from_incidents
          (JArr ([] @ JObj [(''dominant_attack_ip'', JObj [(''ip'', JNum 5)]),
                            (''dominant_attacked_host'', JNum 7)] # [])) = Inl AttributeError"
    using extract_totality [of "[(''dominant_attack_ip'', JObj [(''ip'', JNum 5)]),
                            (''dominant_attacked_host'', JNum 7)]" "JNum 7" _ "[]" "[]"]
    by (simp add: scalar_def e and_then_def)
  have "\<not> substring ''ip'' ''1.2.3.4''" by code_simp
  then show "attack_ip_step (JObj [(''dominant_attack_ip'', JStr ''1.2.3.4'')]) [] = Inr []"
    using extract_totality [of "[(''dominant_attack_ip'', JStr ''1.2.3.4'')]" _ "[]" _ _ _ "''1.2.3.4''"]
    by simp
  have "\<not> substring ''value'' ''example.com''" by code_simp
  then show "attacked_host_step (JObj [(''dominant_attacked_host'', JStr ''example.com'')]) {} = Inr {}"
    using extract_totality [of "[(''dominant_attacked_host'', JStr ''example.com'')]" _ _ _ _ "{}"
        "''example.com''"]
    by simp
  show "incident_step (JObj [(''id'', JNum 7)]) ([], {}) = Inr ([], {})"
    using extract_totality [where kvs = "[(''id'', JNum 7)]" and st = "([], {})"]
    by simp
  have "list_all well_formed
     [JObj [(''dominant_attack_ip'', JObj [(''ip'', JStr ''1.2.3.4'')]),
            (''dominant_attacked_host'', JObj [])]]"
    by (simp add: well_formed_def field_ok_def)
  then show "\<exists>r. extract_data_from_incidents
          (JArr [JObj [(''dominant_attack_ip'', JObj [(''ip'', JStr ''1.2.3.4'')]),
                       (''dominant_attacked_host'', JObj [])]]) = Inr r"
    using extract_totality [where incidents =
        "[JObj [(''dominant_attack_ip'', JObj [(''ip'', JStr ''1.2.3.4'')]),
            (''dominant_attacked_host'', JObj [])]]"]
    by blast
qed

section \<open>Properties of the fetchers\<close>

lemma page_items_JArr: "page_items (JArr xs) = Inr xs"
  by (cases xs) (simp_all add: page_items_def)

lemma fetch_loop_pages:
  assumes "\<forall>i<length fulls.
      http (page_request env caid since page_size (p + int i))
        = Inr \<lparr>status_code = 200, json_body = Some (JArr (fulls ! i))\<rparr>
      \<and> page_size \<le> int (length (fulls ! i))"
    and "http (page_request env caid since page_size (p + int (length fulls))) = Inr r"
    and "status_code r \<noteq> 200
         \<or> (json_body r = Some body \<and> page_items body = Inr short \<and> int (length short) < page_size)"
    and "length fulls < fuel"
  shows "fetch_loop fuel http env caid since page_size p acc sent =
     (sent @ map (\<lambda>i. page_request env caid since page_size (p + int i)) [0..<Suc (length fulls)],
      Returned (acc @ concat fulls @ (if status_code r = 200 then short else [])))"
  using assms
proof (induction fulls arbitrary: fuel p acc sent)
  case Nil
  then obtain k where fuel: "fuel = Suc k" by (cases fuel) auto
  show ?case using Nil.prems(2,3) unfolding fuel by auto
next
  case (Cons pg fulls)
  then obtain k where fuel: "fuel = Suc k" by (cases fuel) auto
  have first: "http (page_request env caid since page_size p)
        = Inr \<lparr>status_code = 200, json_body = Some (JArr pg)\<rparr>"
    and big: "page_size \<le> int (length pg)"
    using Cons.prems(1) by force+
  have rest: "\<forall>i<length fulls.
      http (page_request env caid since page_size ((p + 1) + int i))
        = Inr \<lparr>status_code = 200, json_body = Some (JArr (fulls ! i))\<rparr>
      \<and> page_size \<le> int (length (fulls ! i))"
  proof (intro allI impI)
    fix i assume "i < length fulls"
    then have "Suc i < length (pg # fulls)" by simp
    from Cons.prems(1)[rule_format, OF this]
    show "http (page_request env caid since page_size ((p + 1) + int i))
        = Inr \<lparr>status_code = 200, json_body = Some (JArr (fulls ! i))\<rparr>
      \<and> page_size \<le> int (length (fulls ! i))"
      by (simp add: algebra_simps)
  qed
  have last: "http (page_request env caid since page_size ((p + 1) + int (length fulls))) = Inr r"
    using Cons.prems(2) by (simp add: algebra_simps)
  have k: "length fulls < k" using Cons.prems(4) fuel by simp
  note IH = Cons.IH [OF rest last Cons.prems(3) k]
  have shift: "map (\<lambda>i. page_request env caid since page_size (p + int i)) [0..<Suc (Suc (length fulls))]
      = page_request env caid since page_size p
        # map (\<lambda>i. page_request env caid since page_size ((p + 1) + int i)) [0..<Suc (length fulls)]"
  proof -
    have "[0..<Suc (Suc (length fulls))] = 0 # map Suc [0..<Suc (length fulls)]"
      by (metis map_Suc_upt upt_conv_Cons zero_less_Suc)
    then show ?thesis by (simp add: comp_def algebra_simps del: upt_Suc)
  qed
  show ?case
    unfolding fuel using first big IH
    by (simp add: page_items_JArr shift del: upt_Suc)
qed


text \<open>
  Claim C4. The pagination contract: when the pages 1 to \<open>n\<close> are answered with status 200
  and full arrays (at least \<open>page_size\<close> incidents each), and page \<open>n + 1\<close> is answered
  either with a status other than 200 or with a page of fewer than \<open>page_size\<close> incidents
  (an empty one included), the fetch sends exactly the requests for the pages 1 to
  \<open>n + 1\<close> in order and returns, without raising, the concatenation of the full pages
  followed by the short page, or by nothing when page \<open>n + 1\<close> failed. Enough fuel
  (more than \<open>n\<close> iterations) gives the result.
\<close>

theorem pagination_contract:
  assumes "\<forall>i<length fulls.
      http (page_request env caid since page_size (1 + int i))
        = Inr \<lparr>status_code = 200, json_body = Some (JArr (fulls ! i))\<rparr>
      \<and> page_size \<le> int (length (fulls ! i))"
    and "http (page_request env caid since page_size (1 + int (length fulls))) = Inr r"
    and "status_code r \<noteq> 200
         \<or> (json_body r = Some body \<and> page_items body = Inr short \<and> int (length short) < page_size)"
    and "length fulls < fuel"
  shows "fetch_all_incidents_with_pagination fuel http env caid since page_size =
     (map (\<lambda>i. page_request env caid since page_size (1 + int i)) [0..<Suc (length fulls)],
      Returned (concat fulls @ (if status_code r = 200 then short else [])))"
  unfolding fetch_all_incidents_with_pagination_def
  using fetch_loop_pages [OF assms, of "[]" "[]"] by simp

theorem pagination_contract_witness:
  "fetch_all_incidents_with_pagination 5 two_pages Map.empty (Some ''77'') None 2 =
     ([page_request Map.empty (Some ''77'') None 2 1, page_request Map.empty (Some ''77'') None 2 2],
      Returned [JObj [(''id'', JNum 1)], JObj [(''id'', JNum 2)], JObj [(''id'', JNum 3)]])"
proof -
  let ?fulls = "[[JObj [(''id'', JNum 1)], JObj [(''id'', JNum 2)]]]"
  let ?r = "\<lparr>status_code = 200, json_body = Some (JArr [JObj [(''id'', JNum 3)]])\<rparr>"
  have 1: "\<forall>i<length ?fulls.
      two_pages (page_request Map.empty (Some ''77'') None 2 (1 + int i))
        = Inr \<lparr>status_code = 200, json_body = Some (JArr (?fulls ! i))\<rparr>
      \<and> 2 \<le> int (length (?fulls ! i))"
    by (simp add: two_pages_def page_request_def)
  have 2: "two_pages (page_request Map.empty (Some ''77'') None 2 (1 + int (length ?fulls))) = Inr ?r"
    by (simp add: two_pages_def page_request_def)
  have 3: "status_code ?r \<noteq> 200
         \<or> (json_body ?r = Some (JArr [JObj [(''id'', JNum 3)]])
            \<and> page_items (JArr [JObj [(''id'', JNum 3)]]) = Inr [JObj [(''id'', JNum 3)]]
            \<and> int (length [JObj [(''id'', JNum 3)]]) < 2)"
    by (simp add: page_items_def)
  have 4: "length ?fulls < 5" by simp
  show ?thesis using pagination_contract [OF 1 2 3 4] by (simp add: numeral_2_eq_2)
qed

text \<open>
  Claim C7. With no credentials in the environment, \<^verbatim>\<open>get_imperva_incidents\<close> raises
  \<^verbatim>\<open>ValueError\<close> before any request, and the paginated fetch does not: it sends the
  request with both credential headers \<^verbatim>\<open>None\<close> and, on the server's 401, returns the
  empty list.
\<close>

theorem missing_credentials_not_raised:
  "fetch_all_incidents_with_pagination 1
       (\<lambda>req. Inr \<lparr>status_code = 401, json_body = None\<rparr>) Map.empty (Some ''12345'') None 100
     = ([\<lparr>url = api_url,
          params = [(''caid'', JStr ''12345''), (''page'', JNum 1), (''page_size'', JNum 100)],
          headers = [(''x-API-Id'', None), (''x-API-Key'', None),
                     (''Accept'', Some ''application/json'')]\<rparr>],
        Returned [])
   \<and> get_imperva_incidents
       (\<lambda>req. Inr \<lparr>status_code = 401, json_body = None\<rparr>) Map.empty (Some ''12345'') None
     = ([], Inl ValueError)"
  by (simp add: fetch_all_incidents_with_pagination_def get_imperva_incidents_def page_request_def
      api_headers_def since_param_def opt_str_def missing_def)

section \<open>Properties of strings and of the watermark\<close>

lemma dropWhile_id: "xs \<noteq> [] \<Longrightarrow> \<not> P (hd xs) \<Longrightarrow> dropWhile P xs = xs"
  by (cases xs) auto

lemma strip_clean: "clean t \<Longrightarrow> strip t = t"
proof -
  assume c: "clean t"
  have 1: "dropWhile is_space t = t" using c by (simp add: clean_def dropWhile_id)
  have "rev t \<noteq> []" "hd (rev t) = last t" using c by (simp_all add: clean_def hd_rev)
  then have 2: "dropWhile is_space (rev t) = rev t"
    using c by (simp add: clean_def dropWhile_id)
  show ?thesis by (simp add: strip_def 1 2)
qed

lemma strip_Nil: "strip [] = []"
  by (simp add: strip_def)

lemma dropWhile_rev_ends:
  assumes u: "u = dropWhile P s" and w: "w = dropWhile P (rev u)" and wne: "w \<noteq> []"
  shows "\<not> P (hd w)" and "\<not> P (last w)"
proof -
  show "\<not> P (hd w)" using wne unfolding w by (rule hd_dropWhile)
  have une: "u \<noteq> []"
  proof
    assume "u = []"
    then have "w = []" unfolding w by simp
    with wne show False by simp
  qed
  have "rev u = takeWhile P (rev u) @ w" unfolding w by simp
  then have "last (rev u) = last (takeWhile P (rev u) @ w)" by simp
  also have "\<dots> = last w" using wne by (rule last_appendR)
  finally have "last w = hd u" using une by (simp add: last_rev)
  moreover have "\<not> P (hd u)" using une unfolding u by (rule hd_dropWhile)
  ultimately show "\<not> P (last w)" by simp
qed

lemma strip_result_clean: "strip s \<noteq> [] \<Longrightarrow> clean (strip s)"
proof -
  assume ne: "strip s \<noteq> []"
  define u where "u = dropWhile is_space s"
  define w where "w = dropWhile is_space (rev u)"
  have s: "strip s = rev w" by (simp add: strip_def u_def w_def)
  have wne: "w \<noteq> []" using ne s by simp
  note ends = dropWhile_rev_ends [OF u_def w_def wne]
  have "hd (rev w) = last w" "last (rev w) = hd w" using wne by (simp_all add: hd_rev last_rev)
  then show ?thesis using wne ends by (simp add: clean_def s)
qed

lemma strip_strip: "strip (strip s) = strip s"
proof (cases "strip s = []")
  case True
  then show ?thesis by (simp add: strip_Nil)
next
  case False
  then show ?thesis by (simp add: strip_result_clean strip_clean)
qed

lemma dropWhile_all_append: "list_all P a \<Longrightarrow> dropWhile P (a @ t) = dropWhile P t"
  by (induction a) auto

lemma strip_pad:
  assumes "list_all is_space a" "list_all is_space b" "clean t"
  shows "strip (a @ t @ b) = t"
proof -
  have tb: "t @ b \<noteq> []" "hd (t @ b) = hd t" using assms(3) by (simp_all add: clean_def)
  have "dropWhile is_space (a @ t @ b) = dropWhile is_space (t @ b)"
    using assms(1) by (rule dropWhile_all_append)
  also have "\<dots> = t @ b"
    using tb assms(3) by (simp add: dropWhile_id clean_def)
  finally have 1: "dropWhile is_space (a @ t @ b) = t @ b" .
  have rb: "list_all is_space (rev b)" using assms(2) by (simp add: list_all_iff)
  have rt: "rev t \<noteq> []" "hd (rev t) = last t" using assms(3) by (simp_all add: clean_def hd_rev)
  have "dropWhile is_space (rev (t @ b)) = dropWhile is_space (rev t)"
    using dropWhile_all_append [OF rb] by simp
  also have "\<dots> = rev t" using rt assms(3) by (simp add: dropWhile_id clean_def)
  finally have 2: "dropWhile is_space (rev (t @ b)) = rev t" .
  have "strip (a @ t @ b) = rev (dropWhile is_space (rev (t @ b)))"
    by (simp only: strip_def 1)
  also have "\<dots> = t" by (simp only: 2 rev_rev_ident)
  finally show ?thesis .
qed


lemma of_char_digit_char: "d < 10 \<Longrightarrow> (of_char (digit_char d) :: nat) = 48 + d"
  by (simp add: digit_char_def)

lemma digit_char_is_digit: "d < 10 \<Longrightarrow> is_digit (digit_char d)"
  by (simp add: is_digit_def of_char_digit_char)

lemma digit_value_digit_char: "d < 10 \<Longrightarrow> digit_value (digit_char d) = d"
  by (simp add: digit_value_def of_char_digit_char)

lemma is_digit_not_space: "is_digit c \<Longrightarrow> \<not> is_space c"
  by (auto simp: is_digit_def is_space_def Let_def)

lemma is_digit_not_sign: "is_digit c \<Longrightarrow> c \<noteq> CHR ''-'' \<and> c \<noteq> CHR ''+''"
  by (auto simp: is_digit_def)

lemma digits_of_digits: "list_all is_digit (digits_of n)"
proof (induction n rule: digits_of.induct)
  case (1 n)
  show ?case
  proof (cases "n < 10")
    case True
    then show ?thesis by (subst digits_of.simps) (simp add: digit_char_is_digit)
  next
    case False
    then show ?thesis using "1" by (subst digits_of.simps) (simp add: digit_char_is_digit)
  qed
qed

lemma digits_of_nonempty: "digits_of n \<noteq> []"
  by (subst digits_of.simps) simp

lemma parse_digits_all:
  "list_all is_digit ds \<Longrightarrow>
   parse_digits acc ds = Some (foldl (\<lambda>a c. 10 * a + digit_value c) acc ds)"
  by (induction ds arbitrary: acc) simp_all

lemma parse_nat_all:
  "list_all is_digit ds \<Longrightarrow> ds \<noteq> [] \<Longrightarrow>
   parse_nat ds = Some (foldl (\<lambda>a c. 10 * a + digit_value c) 0 ds)"
  by (cases ds) (simp_all add: parse_nat_def parse_digits_all)

lemma foldl_digits_of: "foldl (\<lambda>a c. 10 * a + digit_value c) 0 (digits_of n) = n"
proof (induction n rule: digits_of.induct)
  case (1 n)
  show ?case
  proof (cases "n < 10")
    case True
    then show ?thesis by (subst digits_of.simps) (simp add: digit_value_digit_char)
  next
    case False
    then show ?thesis using "1"
      by (subst digits_of.simps) (simp add: digit_value_digit_char)
  qed
qed

lemma parse_nat_digits_of: "parse_nat (digits_of n) = Some n"
  by (simp add: parse_nat_all digits_of_digits digits_of_nonempty foldl_digits_of)

lemma digits_of_ends:
  "is_digit (hd (digits_of n))" "is_digit (last (digits_of n))"
  using digits_of_digits [of n] digits_of_nonempty [of n]
  by (simp_all add: list_all_iff)

lemma clean_str_int: "clean (str_int i)"
proof -
  have minus: "\<not> is_space CHR ''-''" by (simp add: is_space_def)
  have tl: "\<not> is_space (last (digits_of n))" and hd: "\<not> is_space (hd (digits_of n))" for n
    using digits_of_ends [of n] by (simp_all add: is_digit_not_space)
  show ?thesis
    using minus tl hd digits_of_nonempty by (simp add: clean_def str_int_def)
qed

lemma py_int_clean:
  "clean t \<Longrightarrow> py_int t =
     (case t of
        [] \<Rightarrow> None
      | c # r \<Rightarrow>
          if c = CHR ''-'' then map_option (\<lambda>n. - int n) (parse_nat r)
          else if c = CHR ''+'' then map_option int (parse_nat r)
          else map_option int (parse_nat (c # r)))"
  by (simp add: py_int_def strip_clean)

lemma py_int_str_int: "py_int (str_int i) = Some i"
proof (cases "i < 0")
  case True
  then show ?thesis
    by (simp add: py_int_clean clean_str_int) (simp add: str_int_def parse_nat_digits_of)
next
  case False
  obtain c r where d: "digits_of (nat i) = c # r"
    using digits_of_nonempty [of "nat i"] by (cases "digits_of (nat i)") auto
  have "is_digit c" using digits_of_ends(1) [of "nat i"] d by simp
  then have "c \<noteq> CHR ''-''" "c \<noteq> CHR ''+''" using is_digit_not_sign by auto
  moreover have "parse_nat (c # r) = Some (nat i)" using parse_nat_digits_of [of "nat i"] d by simp
  ultimately show ?thesis using False d
    by (simp add: py_int_clean clean_str_int) (simp add: str_int_def)
qed

lemma py_int_strip: "py_int (strip t) = py_int t"
  by (simp add: py_int_def strip_strip)

lemma py_int_padded:
  "list_all is_space a \<Longrightarrow> list_all is_space b \<Longrightarrow> py_int (a @ str_int i @ b) = Some i"
  using py_int_str_int [of i] strip_pad [OF _ _ clean_str_int, of a b i]
  by (simp add: py_int_def strip_clean clean_str_int)


lemma dropWhile_keeps: "x \<in> set xs \<Longrightarrow> \<not> P x \<Longrightarrow> x \<in> set (dropWhile P xs)"
  by (induction xs) auto

lemma strip_keeps: "c \<in> set t \<Longrightarrow> \<not> is_space c \<Longrightarrow> c \<in> set (strip t)"
  by (simp add: strip_def dropWhile_keeps)

lemma parse_digits_chars:
  "parse_digits acc s = Some n \<Longrightarrow> c \<in> set s \<Longrightarrow> is_digit c \<or> c = CHR ''_''"
proof (induction acc s rule: parse_digits.induct)
  case (1 acc)
  then show ?case by simp
next
  case (2 acc d s)
  show ?case
  proof (cases "is_digit d")
    case True
    then show ?thesis using 2 by auto
  next
    case False
    then have u: "d = CHR ''_''" using "2.prems"(1) by (auto split: if_splits)
    then obtain e s' where s: "s = e # s'" and e: "is_digit e"
      and r: "parse_digits (10 * acc + digit_value e) s' = Some n"
      using "2.prems"(1) False by (auto split: if_splits list.splits)
    show ?thesis using "2.IH"(2) [OF False u s e r] "2.prems"(2) u s e by auto
  qed
qed

lemma parse_nat_chars:
  "parse_nat s = Some n \<Longrightarrow> c \<in> set s \<Longrightarrow> is_digit c \<or> c = CHR ''_''"
  by (cases s) (auto simp: parse_nat_def split: if_splits dest: parse_digits_chars)

lemma py_int_stray: "c \<in> set t \<Longrightarrow> stray c \<Longrightarrow> py_int t = None"
proof (rule ccontr)
  assume c: "c \<in> set t" and s: "stray c" and "py_int t \<noteq> None"
  then obtain n where n: "py_int t = Some n" by auto
  have cs: "c \<in> set (strip t)" using c s by (simp add: strip_keeps stray_def)
  then obtain d r where dr: "strip t = d # r" by (cases "strip t") auto
  have "is_digit c \<or> c = CHR ''_''"
  proof (cases "d = CHR ''-'' \<or> d = CHR ''+''")
    case True
    then obtain m where "parse_nat r = Some m" using n dr by (auto simp: py_int_def)
    moreover have "c \<in> set r" using cs dr True s by (auto simp: stray_def)
    ultimately show ?thesis by (rule parse_nat_chars)
  next
    case False
    then obtain m where "parse_nat (d # r) = Some m" using n dr by (auto simp: py_int_def)
    moreover have "c \<in> set (d # r)" using cs dr by simp
    ultimately show ?thesis by (rule parse_nat_chars)
  qed
  then show False using s by (auto simp: stray_def)
qed

lemma py_int_blank: "list_all is_space t \<Longrightarrow> py_int t = None"
proof -
  assume "list_all is_space t"
  then have d: "dropWhile is_space t = []" by (simp add: list_all_iff)
  show ?thesis unfolding py_int_def strip_def d by simp
qed

text \<open>
  Claim C8. The watermark load returns \<^verbatim>\<open>None\<close> when the file is absent, returns the
  stored integer when the content parses as an integer (in particular when it is the
  decimal representation that \<^verbatim>\<open>str\<close> writes, with any whitespace around it), and
  raises \<^verbatim>\<open>ValueError\<close>, which nothing in the function catches, when the content does
  not parse: for instance when it is blank or holds a character that is neither a digit, a
  sign, an underscore nor whitespace.
\<close>

theorem watermark_load:
  "(texts fs (watermark_path filename) = None \<longrightarrow>
      get_last_query_timestamp fs filename = Inr None)
   \<and> (texts fs (watermark_path filename) = Some content \<and> py_int content = Some n \<longrightarrow>
      get_last_query_timestamp fs filename = Inr (Some n))
   \<and> (texts fs (watermark_path filename) = Some (a @ str_int n @ b)
        \<and> list_all is_space a \<and> list_all is_space b \<longrightarrow>
      get_last_query_timestamp fs filename = Inr (Some n))
   \<and> (texts fs (watermark_path filename) = Some content \<and> py_int content = None \<longrightarrow>
      get_last_query_timestamp fs filename = Inl ValueError)
   \<and> (texts fs (watermark_path filename) = Some content
        \<and> (list_all is_space content \<or> list_ex stray content) \<longrightarrow>
      get_last_query_timestamp fs filename = Inl ValueError)"
proof (intro conjI impI)
  assume "texts fs (watermark_path filename) = None"
  then show "get_last_query_timestamp fs filename = Inr None"
    by (simp add: get_last_query_timestamp_def)
next
  assume "texts fs (watermark_path filename) = Some content \<and> py_int content = Some n"
  then show "get_last_query_timestamp fs filename = Inr (Some n)"
    by (simp add: get_last_query_timestamp_def py_int_strip)
next
  assume "texts fs (watermark_path filename) = Some (a @ str_int n @ b)
        \<and> list_all is_space a \<and> list_all is_space b"
  then show "get_last_query_timestamp fs filename = Inr (Some n)"
    by (simp add: get_last_query_timestamp_def py_int_strip py_int_padded)
next
  assume "texts fs (watermark_path filename) = Some content \<and> py_int content = None"
  then show "get_last_query_timestamp fs filename = Inl ValueError"
    by (simp add: get_last_query_timestamp_def py_int_strip)
next
  assume h: "texts fs (watermark_path filename) = Some content
        \<and> (list_all is_space content \<or> list_ex stray content)"
  then have "py_int content = None"
    by (auto simp: py_int_blank list_ex_iff intro: py_int_stray)
  then show "get_last_query_timestamp fs filename = Inl ValueError"
    using h by (simp add: get_last_query_timestamp_def py_int_strip)
qed

lemma digit_chars:
  "digit_char 0 = CHR ''0''" "digit_char 1 = CHR ''1''" "digit_char 2 = CHR ''2''"
  "digit_char 3 = CHR ''3''" "digit_char 4 = CHR ''4''" "digit_char 5 = CHR ''5''"
  "digit_char 6 = CHR ''6''" "digit_char 7 = CHR ''7''" "digit_char 8 = CHR ''8''"
  "digit_char 9 = CHR ''9''"
  by code_simp+

lemma str_int_example: "str_int 1700000000000 = ''1700000000000''"
  using digit_chars by (simp add: str_int_def digits_of.simps)


theorem watermark_load_witness:
  "get_last_query_timestamp \<lparr>texts = Map.empty, docs = Map.empty\<rparr> None = Inr None
   \<and> get_last_query_timestamp
        \<lparr>texts = [''data/last_query_timestamp.txt'' \<mapsto> ''1700000000000'' @ [CHR 0x0A]],
         docs = Map.empty\<rparr> None = Inr (Some 1700000000000)
   \<and> get_last_query_timestamp
        \<lparr>texts = [''data/last_query_timestamp.txt'' \<mapsto> ''17_000''], docs = Map.empty\<rparr> None
       = Inr (Some 17000)
   \<and> get_last_query_timestamp
        \<lparr>texts = [''data/last_query_timestamp.txt'' \<mapsto> ''yesterday''], docs = Map.empty\<rparr> None
       = Inl ValueError"
proof (intro conjI)
  show "get_last_query_timestamp \<lparr>texts = Map.empty, docs = Map.empty\<rparr> None = Inr None"
    using watermark_load [of "\<lparr>texts = Map.empty, docs = Map.empty\<rparr>" None]
    by simp
  have sp: "list_all is_space []" "list_all is_space [CHR 0x0A]"
    by (simp_all add: is_space_def)
  show "get_last_query_timestamp
        \<lparr>texts = [''data/last_query_timestamp.txt'' \<mapsto> ''1700000000000'' @ [CHR 0x0A]],
         docs = Map.empty\<rparr> None = Inr (Some 1700000000000)"
    using sp watermark_load [where
        fs = "\<lparr>texts = [''data/last_query_timestamp.txt'' \<mapsto> ''1700000000000'' @ [CHR 0x0A]],
          docs = Map.empty\<rparr>" and filename = None and a = "[]" and n = 1700000000000
        and b = "[CHR 0x0A]"]
    by (simp add: watermark_path_def str_int_example)
  have p: "py_int ''17_000'' = Some 17000"
    by (simp add: py_int_def strip_def is_space_def parse_nat_def is_digit_def digit_value_def)
  show "get_last_query_timestamp
        \<lparr>texts = [''data/last_query_timestamp.txt'' \<mapsto> ''17_000''], docs = Map.empty\<rparr> None
       = Inr (Some 17000)"
    using p watermark_load [of
        "\<lparr>texts = [''data/last_query_timestamp.txt'' \<mapsto> ''17_000''], docs = Map.empty\<rparr>"
        None "''17_000''" 17000]
    by (simp add: watermark_path_def)
  have st: "list_ex stray ''yesterday''"
    by (simp add: stray_def is_digit_def is_space_def)
  show "get_last_query_timestamp
        \<lparr>texts = [''data/last_query_timestamp.txt'' \<mapsto> ''yesterday''], docs = Map.empty\<rparr> None
       = Inl ValueError"
    using st watermark_load [of
        "\<lparr>texts = [''data/last_query_timestamp.txt'' \<mapsto> ''yesterday''], docs = Map.empty\<rparr>"
        None "''yesterday''"]
    by (simp add: watermark_path_def)
qed

section \<open>Properties of the entry point\<close>

lemma fetch_loop_requests:
  "req \<in> set (fst (fetch_loop fuel http env caid since page_size p acc sent)) \<Longrightarrow>
   req \<in> set sent \<or> (\<exists>q. req = page_request env caid since page_size q)"
proof (induction fuel arbitrary: p acc sent)
  case 0
  then show ?case by simp
next
  case (Suc fuel)
  let ?r = "page_request env caid since page_size p"
  show ?case
  proof (cases "http ?r")
    case (Inl e)
    then show ?thesis using Suc.prems by auto
  next
    case (Inr response)
    show ?thesis
    proof (cases "status_code response = 200")
      case False
      then show ?thesis using Suc.prems Inr by auto
    next
      case True
      show ?thesis
      proof (cases "json_body response")
        case None
        then show ?thesis using Suc.prems Inr True by auto
      next
        case (Some incidents)
        show ?thesis
        proof (cases "page_items incidents")
          case (Inl e)
          then show ?thesis using Suc.prems Inr True Some by auto
        next
          case items: (Inr items)
          show ?thesis
          proof (cases "int (length items) < page_size")
            case True
            then show ?thesis using Suc.prems Inr \<open>status_code response = 200\<close> Some items by auto
          next
            case False
            then have "req \<in> set (fst (fetch_loop fuel http env caid since page_size (p + 1)
                (acc @ items) (sent @ [?r])))"
              using Suc.prems Inr \<open>status_code response = 200\<close> Some items by simp
            from Suc.IH [OF this] show ?thesis by auto
          qed
        qed
      qed
    qed
  qed
qed

lemma fetch_loop_extends:
  "\<exists>rest. fst (fetch_loop fuel http env caid since page_size p acc sent) = sent @ rest"
proof (induction fuel arbitrary: p acc sent)
  case 0
  then show ?case by simp
next
  case (Suc fuel)
  let ?r = "page_request env caid since page_size p"
  have step: "\<exists>rest. fst (fetch_loop fuel http env caid since page_size (p + 1) acc' (sent @ [?r]))
      = sent @ rest" for acc'
  proof -
    obtain rest where "fst (fetch_loop fuel http env caid since page_size (p + 1) acc' (sent @ [?r]))
      = (sent @ [?r]) @ rest" using Suc.IH by blast
    then show ?thesis by simp
  qed
  show ?case
  proof (cases "http ?r")
    case (Inl e)
    then show ?thesis by simp
  next
    case (Inr response)
    show ?thesis
    proof (cases "status_code response = 200")
      case False
      then show ?thesis using Inr by simp
    next
      case True
      show ?thesis
      proof (cases "json_body response")
        case None
        then show ?thesis using Inr True by simp
      next
        case (Some incidents)
        show ?thesis
        proof (cases "page_items incidents")
          case (Inl e)
          then show ?thesis using Inr True Some by simp
        next
          case items: (Inr items)
          show ?thesis
            using Inr True Some items step [of "acc @ items"]
            by (cases "int (length items) < page_size") simp_all
        qed
      qed
    qed
  qed
qed

lemma fetch_loop_first:
  "\<exists>rest. fst (fetch_loop (Suc fuel) http env caid since page_size p acc sent)
     = sent @ page_request env caid since page_size p # rest"
proof -
  let ?r = "page_request env caid since page_size p"
  have step: "\<exists>rest. fst (fetch_loop fuel http env caid since page_size (p + 1) acc' (sent @ [?r]))
      = sent @ ?r # rest" for acc'
    using fetch_loop_extends [of fuel http env caid since page_size "p + 1" acc' "sent @ [?r]"]
    by auto
  show ?thesis
  proof (cases "http ?r")
    case (Inl e)
    then show ?thesis by simp
  next
    case (Inr response)
    show ?thesis
    proof (cases "status_code response = 200")
      case False
      then show ?thesis using Inr by simp
    next
      case True
      show ?thesis
      proof (cases "json_body response")
        case None
        then show ?thesis using Inr True by simp
      next
        case (Some incidents)
        show ?thesis
        proof (cases "page_items incidents")
          case (Inl e)
          then show ?thesis using Inr True Some by simp
        next
          case items: (Inr items)
          show ?thesis
            using Inr True Some items step [of "acc @ items"]
            by (cases "int (length items) < page_size") simp_all
        qed
      qed
    qed
  qed
qed

lemma page_request_from:
  "w \<noteq> 0 \<Longrightarrow> map_of (params (page_request env caid (Some w) page_size q)) ''from'' = Some (JNum w)"
  by (simp add: page_request_def since_param_def)

lemma page_request_no_from:
  "map_of (params (page_request env caid None page_size q)) ''from'' = None"
  by (simp add: page_request_def since_param_def)

lemma main_requests_cases:
  assumes "get_last_query_timestamp fs None = Inr stored"
  shows "requests (main fuel http env clock order fs) = []
       \<or> requests (main fuel http env clock order fs)
          = fst (fetch_all_incidents_with_pagination fuel http env (env ''CLID'') stored 100)"
proof -
  obtain sent out where f:
    "fetch_all_incidents_with_pagination fuel http env (env ''CLID'') stored 100 = (sent, out)"
    by (cases "fetch_all_incidents_with_pagination fuel http env (env ''CLID'') stored 100")
  show ?thesis
  proof (cases out)
    case (Returned incidents)
    then show ?thesis using assms f by (simp add: main_def Let_def)
  next
    case (Raised e)
    then show ?thesis using assms f by (simp add: main_def)
  next
    case Running
    then show ?thesis using assms f by (simp add: main_def)
  qed
qed

lemma main_requests:
  assumes "get_last_query_timestamp fs None = Inr stored"
    and "req \<in> set (requests (main fuel http env clock order fs))"
  shows "\<exists>q. req = page_request env (env ''CLID'') stored 100 q"
proof -
  have "req \<in> set (fst (fetch_all_incidents_with_pagination fuel http env (env ''CLID'') stored 100))"
    using main_requests_cases [OF assms(1), of fuel http env clock order] assms(2) by auto
  then have "req \<in> set (fst (fetch_loop fuel http env (env ''CLID'') stored 100 1 [] []))"
    by (simp add: fetch_all_incidents_with_pagination_def)
  from fetch_loop_requests [OF this] show ?thesis by simp
qed


lemma main_first_request:
  assumes "get_last_query_timestamp fs None = Inr (Some w)" and "fromtimestamp_ok clock w"
  shows "\<exists>rest. requests (main (Suc fuel) http env clock order fs)
           = page_request env (env ''CLID'') (Some w) 100 1 # rest"
proof -
  obtain sent out where f:
    "fetch_all_incidents_with_pagination (Suc fuel) http env (env ''CLID'') (Some w) 100 = (sent, out)"
    by (cases "fetch_all_incidents_with_pagination (Suc fuel) http env (env ''CLID'') (Some w) 100")
  have "requests (main (Suc fuel) http env clock order fs) = sent"
  proof (cases out)
    case (Returned incidents)
    then show ?thesis using assms f by (simp add: main_def Let_def)
  next
    case (Raised e)
    then show ?thesis using assms f by (simp add: main_def)
  next
    case Running
    then show ?thesis using assms f by (simp add: main_def)
  qed
  moreover have "\<exists>rest. sent = page_request env (env ''CLID'') (Some w) 100 1 # rest"
    using fetch_loop_first [of fuel http env "env ''CLID''" "Some w" 100 1 "[]" "[]"] f
    by (simp add: fetch_all_incidents_with_pagination_def)
  ultimately show ?thesis by simp
qed

text \<open>
  Claim C5, as amended. A stored watermark other than zero is passed verbatim as the
  \<^verbatim>\<open>from\<close> parameter of every request of the next run, and the run sends at least the
  request for page 1 when the watermark can be logged as a date. With the watermark
  1700000000000 every page request has \<^verbatim>\<open>from=1700000000000\<close>.
\<close>

theorem watermark_passed:
  assumes "get_last_query_timestamp fs None = Inr (Some w)" and "w \<noteq> 0"
  shows "(\<forall>req\<in>set (requests (main fuel http env clock order fs)).
            map_of (params req) ''from'' = Some (JNum w))
       \<and> (fromtimestamp_ok clock w \<and> 0 < fuel \<longrightarrow>
            requests (main fuel http env clock order fs) \<noteq> [])"
proof (intro conjI ballI impI)
  fix req assume "req \<in> set (requests (main fuel http env clock order fs))"
  from main_requests [OF assms(1) this] obtain q
    where "req = page_request env (env ''CLID'') (Some w) 100 q" by blast
  then show "map_of (params req) ''from'' = Some (JNum w)"
    using assms(2) by (simp add: page_request_from)
next
  assume h: "fromtimestamp_ok clock w \<and> 0 < fuel"
  then obtain k where "fuel = Suc k" by (cases fuel) auto
  then show "requests (main fuel http env clock order fs) \<noteq> []"
    using main_first_request [OF assms(1), of clock k http env order] h by auto
qed

theorem watermark_passed_witness:
  "get_last_query_timestamp
     \<lparr>texts = [''data/last_query_timestamp.txt'' \<mapsto> ''1700000000000''], docs = Map.empty\<rparr> None
     = Inr (Some 1700000000000)
   \<and> map (\<lambda>req. map_of (params req) ''from'')
        (requests (main 3 no_incidents Map.empty sample_clock id
           \<lparr>texts = [''data/last_query_timestamp.txt'' \<mapsto> ''1700000000000''],
            docs = Map.empty\<rparr>))
     = [Some (JNum 1700000000000)]"
proof -
  let ?fs = "\<lparr>texts = [''data/last_query_timestamp.txt'' \<mapsto> ''1700000000000''],
              docs = Map.empty\<rparr>"
  have load: "get_last_query_timestamp ?fs None = Inr (Some 1700000000000)"
    using py_int_str_int [of 1700000000000]
    by (simp add: get_last_query_timestamp_def watermark_path_def py_int_strip str_int_example)
  have run: "requests (main 3 no_incidents Map.empty sample_clock id ?fs)
     = [page_request Map.empty None (Some 1700000000000) 100 1]"
    using load
    by (simp add: main_def sample_clock_def fetch_all_incidents_with_pagination_def
        numeral_3_eq_3 no_incidents_def page_items_def)
  have "\<forall>req\<in>set (requests (main 3 no_incidents Map.empty sample_clock id ?fs)).
            map_of (params req) ''from'' = Some (JNum 1700000000000)"
    using watermark_passed [OF load, of 3 no_incidents Map.empty sample_clock id] by simp
  then show ?thesis using load run by simp
qed

text \<open>
  The claim as stated, for every stored watermark, fails for the watermark 0:
  \<^verbatim>\<open>if since_timestamp:\<close> is false for it, and the request has no \<^verbatim>\<open>from\<close>.
\<close>

theorem watermark_zero_counterexample:
  "get_last_query_timestamp
     \<lparr>texts = [''data/last_query_timestamp.txt'' \<mapsto> ''0''], docs = Map.empty\<rparr> None
     = Inr (Some 0)
   \<and> map (\<lambda>req. map_of (params req) ''from'')
        (requests (main 3 no_incidents Map.empty sample_clock id
           \<lparr>texts = [''data/last_query_timestamp.txt'' \<mapsto> ''0''], docs = Map.empty\<rparr>))
     = [None]"
proof -
  let ?fs = "\<lparr>texts = [''data/last_query_timestamp.txt'' \<mapsto> ''0''], docs = Map.empty\<rparr>"
  have z: "str_int 0 = ''0''" using digit_chars by (simp add: str_int_def digits_of.simps)
  have load: "get_last_query_timestamp ?fs None = Inr (Some 0)"
    using py_int_str_int [of 0]
    by (simp add: get_last_query_timestamp_def watermark_path_def py_int_strip z)
  have run: "requests (main 3 no_incidents Map.empty sample_clock id ?fs)
     = [page_request Map.empty None (Some 0) 100 1]"
    using load
    by (simp add: main_def sample_clock_def fetch_all_incidents_with_pagination_def
        numeral_3_eq_3 no_incidents_def page_items_def)
  show ?thesis using load run by (simp add: page_request_def since_param_def)
qed

section \<open>Properties of the saved files\<close>

text \<open>
  Claim C2. A blank key of \<^verbatim>\<open>ip_data\<close> is filtered out of the list file and is written
  to the detailed file all the same: the merge loop over \<^verbatim>\<open>ip_data.items()\<close> has no
  such filter.
\<close>

theorem blank_ip_persisted:
  "docs (fst (save_ip_data_to_file \<lparr>texts = Map.empty, docs = Map.empty\<rparr>
           ''2024-01-01-00-00-00'' id [(''  '', JArr [JStr ''bot''])]
           (Some ''ips.txt'') (Some ''ips.json''))) ''data/ips.json''
     = Some (Parsed (JObj [(''  '', JArr [JStr ''bot''])]))
   \<and> texts (fst (save_ip_data_to_file \<lparr>texts = Map.empty, docs = Map.empty\<rparr>
           ''2024-01-01-00-00-00'' id [(''  '', JArr [JStr ''bot''])]
           (Some ''ips.txt'') (Some ''ips.json''))) ''data/ips.txt''
     = Some []"
  by code_simp

section \<open>The watermark from one run to the next\<close>

lemma data_path_cases:
  "suf \<noteq> [] \<Longrightarrow> data_path (Some (ts @ suf)) g = ts @ suf \<or> data_path (Some (ts @ suf)) g = ''data/'' @ ts @ suf"
  by (simp add: data_path_def)

lemma tail_neq:
  "t = y @ s2 \<Longrightarrow> length s1 = length s2 \<Longrightarrow> s1 \<noteq> s2 \<Longrightarrow> x @ s1 \<noteq> t"
  by simp

lemma data_path_tail:
  assumes "suf \<noteq> []"
  shows "\<exists>x. data_path (Some (ts @ suf)) g = x @ suf"
proof -
  have "''data/'' @ ts @ suf = (''data/'' @ ts) @ suf" by simp
  then show ?thesis using data_path_cases [OF assms, of ts g] by (metis append_Nil append_assoc)
qed

lemma ip_path_neq:
  "data_path (Some (ts @ ''_ip_data.txt'')) g \<noteq> ''data/last_query_timestamp.txt''"
proof -
  obtain x where x: "data_path (Some (ts @ ''_ip_data.txt'')) g = x @ ''_ip_data.txt''"
    using data_path_tail [of "''_ip_data.txt''" ts g] by auto
  have "x @ ''_ip_data.txt'' \<noteq> ''data/last_query_timestamp.txt''"
    by (rule tail_neq [where y = "''data/last_query_t''" and ?s2.0 = "''imestamp.txt''"]) simp_all
  then show ?thesis unfolding x .
qed

lemma domain_path_neq:
  "data_path (Some (ts @ ''_domain_data.txt'')) g \<noteq> ''data/last_query_timestamp.txt''"
proof -
  obtain x where x: "data_path (Some (ts @ ''_domain_data.txt'')) g = x @ ''_domain_data.txt''"
    using data_path_tail [of "''_domain_data.txt''" ts g] by auto
  have "x @ ''_domain_data.txt'' \<noteq> ''data/last_query_timestamp.txt''"
    by (rule tail_neq [where y = "''data/last_que''" and ?s2.0 = "''ry_timestamp.txt''"]) simp_all
  then show ?thesis unfolding x .
qed

lemma stamp_path_neq:
  "data_path (Some (ts @ ''_last_query_timestamp.txt'')) g \<noteq> ''data/last_query_timestamp.txt''"
proof -
  obtain x where x: "data_path (Some (ts @ ''_last_query_timestamp.txt'')) g
      = x @ ''_last_query_timestamp.txt''"
    using data_path_tail [of "''_last_query_timestamp.txt''" ts g] by auto
  have "x @ ''_last_query_timestamp.txt'' \<noteq> ''data/last_query_timestamp.txt''"
    by (rule tail_neq [where y = "''data''" and ?s2.0 = "''/last_query_timestamp.txt''"]) simp_all
  then show ?thesis unfolding x .
qed

lemma report_path_neq: "''reports/'' @ ts @ ''_summary.txt'' \<noteq> ''data/last_query_timestamp.txt''"
  by simp

lemma report_stamp_neq:
  "''reports/'' @ ts @ ''_summary.txt'' \<noteq> data_path (Some (ts' @ ''_last_query_timestamp.txt'')) g"
proof -
  obtain x where x: "data_path (Some (ts' @ ''_last_query_timestamp.txt'')) g
      = x @ ''_last_query_timestamp.txt''"
    using data_path_tail [of "''_last_query_timestamp.txt''" ts' g] by auto
  have "(''reports/'' @ ts @ ''_sum'') @ ''mary.txt'' \<noteq> x @ ''_last_query_timestamp.txt''"
    by (rule tail_neq [where y = "x @ ''_last_query_times''" and ?s2.0 = "''tamp.txt''"]) simp_all
  then show ?thesis unfolding x by simp
qed

lemma data_path_under_data:
  "startswith (data_path (Some (ts @ ''_last_query_timestamp.txt'')) g) ''data''"
  by (simp add: data_path_def startswith_def)

lemma save_ip_texts:
  "p \<noteq> data_path filename (''data/'' @ ts @ ''_ip_data.txt'') \<Longrightarrow>
   texts (fst (save_ip_data_to_file fs ts order ip_data filename detailed_filename)) p = texts fs p"
  by (simp add: save_ip_data_to_file_def Let_def split: sum.splits)

lemma save_domains_texts:
  "p \<noteq> data_path filename (''data/'' @ ts @ ''_domain_data.txt'') \<Longrightarrow>
   texts (fst (save_domains_to_file fs ts domains filename)) p = texts fs p"
  by (simp add: save_domains_to_file_def Let_def)

lemma save_stamp_texts:
  "texts (save_last_query_timestamp fs ts t filename) =
     (texts fs)(data_path filename (''data/'' @ ts @ ''_last_query_timestamp.txt'') \<mapsto> str_int t)"
  by (simp add: save_last_query_timestamp_def Let_def)

lemma report_texts:
  "p \<noteq> ''reports/'' @ ts @ ''_summary.txt'' \<Longrightarrow>
   texts (create_summary_report fs ct a b c ts) p = texts fs p"
  by (simp add: create_summary_report_def)

lemma save_results_keeps:
  "texts (fst (save_results clock order fs incidents)) ''data/last_query_timestamp.txt''
     = texts fs ''data/last_query_timestamp.txt''"
proof (cases "extract_data_from_incidents (JArr incidents)")
  case (Inl e)
  then show ?thesis by (simp add: save_results_def)
next
  case (Inr extracted)
  let ?w = "''data/last_query_timestamp.txt''"
  let ?ts = "file_stamp clock"
  obtain fs1 res where s: "save_ip_data_to_file fs (call_stamp clock) order (fst extracted)
      (Some (?ts @ ''_ip_data.txt'')) (Some (?ts @ ''_ip_detailed.json'')) = (fs1, res)"
    by (cases "save_ip_data_to_file fs (call_stamp clock) order (fst extracted)
      (Some (?ts @ ''_ip_data.txt'')) (Some (?ts @ ''_ip_detailed.json''))")
  have 1: "texts fs1 ?w = texts fs ?w"
    using save_ip_texts [of ?w "Some (?ts @ ''_ip_data.txt'')" "call_stamp clock" fs order
        "fst extracted" "Some (?ts @ ''_ip_detailed.json'')"] s ip_path_neq [of ?ts]
    by (metis fst_conv)
  show ?thesis
  proof (cases res)
    case (Inl e)
    then show ?thesis using Inr s 1 by (simp add: save_results_def)
  next
    case ips: (Inr all_ips)
    let ?fs2 = "fst (save_domains_to_file fs1 (call_stamp clock) (snd extracted)
                       (Some (?ts @ ''_domain_data.txt'')))"
    have 2: "texts ?fs2 ?w = texts fs1 ?w"
      by (rule save_domains_texts) (metis domain_path_neq)
    let ?fs3 = "save_last_query_timestamp ?fs2 (call_stamp clock) (now_ms clock)
                  (Some (?ts @ ''_last_query_timestamp.txt''))"
    have 3: "texts ?fs3 ?w = texts ?fs2 ?w"
      by (simp add: save_stamp_texts stamp_path_neq [THEN not_sym])
    have "texts (create_summary_report ?fs3 ct a b c ?ts) ?w = texts ?fs3 ?w" for ct a b c
      by (rule report_texts) simp
    then show ?thesis using Inr s ips 1 2 3 by (simp add: save_results_def Let_def)
  qed
qed

lemma save_results_stamp:
  assumes "snd (save_results clock order fs incidents) = Saved"
  shows "texts (fst (save_results clock order fs incidents)) (stamp_file clock)
     = Some (str_int (now_ms clock))"
proof (cases "extract_data_from_incidents (JArr incidents)")
  case (Inl e)
  then show ?thesis using assms by (simp add: save_results_def)
next
  case (Inr extracted)
  let ?ts = "file_stamp clock"
  obtain fs1 res where s: "save_ip_data_to_file fs (call_stamp clock) order (fst extracted)
      (Some (?ts @ ''_ip_data.txt'')) (Some (?ts @ ''_ip_detailed.json'')) = (fs1, res)"
    by (cases "save_ip_data_to_file fs (call_stamp clock) order (fst extracted)
      (Some (?ts @ ''_ip_data.txt'')) (Some (?ts @ ''_ip_detailed.json''))")
  show ?thesis
  proof (cases res)
    case (Inl e)
    then show ?thesis using Inr s assms by (simp add: save_results_def)
  next
    case ips: (Inr all_ips)
    let ?fs2 = "fst (save_domains_to_file fs1 (call_stamp clock) (snd extracted)
                       (Some (?ts @ ''_domain_data.txt'')))"
    let ?fs3 = "save_last_query_timestamp ?fs2 (call_stamp clock) (now_ms clock)
                  (Some (?ts @ ''_last_query_timestamp.txt''))"
    have 3: "texts ?fs3 (stamp_file clock) = Some (str_int (now_ms clock))"
      by (simp add: save_stamp_texts stamp_file_def)
    have "texts (create_summary_report ?fs3 ct a b c ?ts) (stamp_file clock)
        = texts ?fs3 (stamp_file clock)" for ct a b c
      unfolding stamp_file_def by (rule report_texts) (metis report_stamp_neq)
    then show ?thesis using Inr s ips 3 by (simp add: save_results_def Let_def)
  qed
qed

lemma main_files_cases:
  "files (main fuel http env clock order fs) = fs
   \<or> (\<exists>incidents. files (main fuel http env clock order fs) = fst (save_results clock order fs incidents)
        \<and> status (main fuel http env clock order fs) = snd (save_results clock order fs incidents))"
proof (cases "get_last_query_timestamp fs None")
  case (Inl e)
  then show ?thesis by (simp add: main_def)
next
  case (Inr stored)
  obtain sent out where f:
    "fetch_all_incidents_with_pagination fuel http env (env ''CLID'') stored 100 = (sent, out)"
    by (cases "fetch_all_incidents_with_pagination fuel http env (env ''CLID'') stored 100")
  show ?thesis
  proof (cases out)
    case (Returned incidents)
    then show ?thesis using Inr f by (auto simp: main_def Let_def)
  next
    case (Raised e)
    then show ?thesis using Inr f by (simp add: main_def)
  next
    case Running
    then show ?thesis using Inr f by (simp add: main_def)
  qed
qed

lemma main_status_saved:
  assumes "status (main fuel http env clock order fs) = Saved"
  shows "\<exists>incidents. files (main fuel http env clock order fs) = fst (save_results clock order fs incidents)
        \<and> snd (save_results clock order fs incidents) = Saved"
proof (cases "get_last_query_timestamp fs None")
  case (Inl e)
  then show ?thesis using assms by (simp add: main_def)
next
  case (Inr stored)
  define refused where "refused =
    (case stored of
       None \<Rightarrow> False
     | Some t \<Rightarrow> if t = 0 then False else if fromtimestamp_ok clock t then False else True)"
  obtain sent out where f:
    "fetch_all_incidents_with_pagination fuel http env (env ''CLID'') stored 100 = (sent, out)"
    by (cases "fetch_all_incidents_with_pagination fuel http env (env ''CLID'') stored 100")
  have m: "main fuel http env clock order fs =
     (if refused then \<lparr>files = fs, requests = [], status = Failed OverflowError\<rparr>
      else (case out of
              Running \<Rightarrow> \<lparr>files = fs, requests = sent, status = Unfinished\<rparr>
            | Raised e \<Rightarrow> \<lparr>files = fs, requests = sent, status = Failed e\<rparr>
            | Returned incidents \<Rightarrow>
                if incidents = [] then \<lparr>files = fs, requests = sent, status = Nothing\<rparr>
                else \<lparr>files = fst (save_results clock order fs incidents), requests = sent,
                      status = snd (save_results clock order fs incidents)\<rparr>))"
    unfolding refused_def using Inr f by (simp add: main_def Let_def split: outcome.splits)
  show ?thesis
  proof (cases refused)
    case True
    then show ?thesis using assms m by simp
  next
    case False
    show ?thesis
    proof (cases out)
      case (Returned incidents)
      show ?thesis
      proof (cases "incidents = []")
        case True
        then show ?thesis using assms m False Returned by simp
      next
        case nonempty: False
        then have "files (main fuel http env clock order fs) = fst (save_results clock order fs incidents)
          \<and> snd (save_results clock order fs incidents) = Saved"
          using assms m False Returned by simp
        then show ?thesis by blast
      qed
    next
      case (Raised e)
      then show ?thesis using assms m False by simp
    next
      case Running
      then show ?thesis using assms m False by simp
    qed
  qed
qed

lemma main_keeps:
  "texts (files (main fuel http env clock order fs)) ''data/last_query_timestamp.txt''
     = texts fs ''data/last_query_timestamp.txt''"
  using main_files_cases [of fuel http env clock order fs] save_results_keeps [of clock order fs]
  by auto

lemma load_absent:
  "texts fs ''data/last_query_timestamp.txt'' = None \<Longrightarrow> get_last_query_timestamp fs None = Inr None"
  by (simp add: get_last_query_timestamp_def watermark_path_def)

lemma main_requests_none:
  assumes "get_last_query_timestamp fs None = Inr None"
  shows "requests (main fuel http env clock order fs)
           = fst (fetch_all_incidents_with_pagination fuel http env (env ''CLID'') None 100)"
proof -
  obtain sent out where f:
    "fetch_all_incidents_with_pagination fuel http env (env ''CLID'') None 100 = (sent, out)"
    by (cases "fetch_all_incidents_with_pagination fuel http env (env ''CLID'') None 100")
  have "requests (main fuel http env clock order fs) = sent"
  proof (cases out)
    case (Returned incidents)
    then show ?thesis using assms f by (simp add: main_def Let_def)
  next
    case (Raised e)
    then show ?thesis using assms f by (simp add: main_def)
  next
    case Running
    then show ?thesis using assms f by (simp add: main_def)
  qed
  then show ?thesis using f by simp
qed

lemma main_first_request_none:
  assumes "get_last_query_timestamp fs None = Inr None"
  shows "\<exists>rest. requests (main (Suc fuel) http env clock order fs)
           = page_request env (env ''CLID'') None 100 1 # rest"
  using fetch_loop_first [of fuel http env "env ''CLID''" None 100 1 "[]" "[]"]
  by (simp add: main_requests_none [OF assms] fetch_all_incidents_with_pagination_def)

lemma str_int_sample: "str_int 1700000600000 = ''1700000600000''"
  using digit_chars by (simp add: str_int_def digits_of.simps)

text \<open>
  Claim C6. The entry point writes the watermark to a file named after the time stamp,
  under \<^verbatim>\<open>data\<close> (the name is put under \<^verbatim>\<open>data/\<close> unless it starts with \<^verbatim>\<open>data\<close>
  already, which a formatted date does not), and that path is never \<^verbatim>\<open>data/last_query_timestamp.txt\<close>, the path
  that \<^verbatim>\<open>get_last_query_timestamp\<close> reads when it is called with no file name. No file
  written by a run has that path. So when the fixed file does not exist before a run, it does
  not exist after it either, whatever the run did: the load of the next run returns
  \<^verbatim>\<open>None\<close>, and no request of the next run has a \<^verbatim>\<open>from\<close> parameter (with fuel, the
  next run does send a request). A run that ends \<open>Saved\<close> has written its watermark to the
  file named after the time stamp.
\<close>

theorem watermark_not_reloaded:
  assumes "texts fs ''data/last_query_timestamp.txt'' = None"
  shows "stamp_file clock \<noteq> ''data/last_query_timestamp.txt''
       \<and> startswith (stamp_file clock) ''data''
       \<and> (\<not> startswith (file_stamp clock @ ''_last_query_timestamp.txt'') ''data'' \<longrightarrow>
            stamp_file clock = ''data/'' @ file_stamp clock @ ''_last_query_timestamp.txt'')
       \<and> (status (main fuel http env clock order fs) = Saved \<longrightarrow>
            texts (files (main fuel http env clock order fs)) (stamp_file clock)
              = Some (str_int (now_ms clock)))
       \<and> texts (files (main fuel http env clock order fs)) ''data/last_query_timestamp.txt'' = None
       \<and> get_last_query_timestamp (files (main fuel http env clock order fs)) None = Inr None
       \<and> (\<forall>req\<in>set (requests (main fuel' http' env' clock' order'
                                   (files (main fuel http env clock order fs)))).
            map_of (params req) ''from'' = None)
       \<and> (0 < fuel' \<longrightarrow>
            requests (main fuel' http' env' clock' order' (files (main fuel http env clock order fs)))
              \<noteq> [])"
proof -
  let ?fs' = "files (main fuel http env clock order fs)"
  have absent: "texts ?fs' ''data/last_query_timestamp.txt'' = None"
    using assms by (simp add: main_keeps)
  then have load: "get_last_query_timestamp ?fs' None = Inr None" by (rule load_absent)
  have 1: "stamp_file clock \<noteq> ''data/last_query_timestamp.txt''"
    unfolding stamp_file_def by (rule stamp_path_neq)
  have 2: "startswith (stamp_file clock) ''data''"
    unfolding stamp_file_def by (rule data_path_under_data)
  have 6: "stamp_file clock = ''data/'' @ file_stamp clock @ ''_last_query_timestamp.txt''"
    if "\<not> startswith (file_stamp clock @ ''_last_query_timestamp.txt'') ''data''"
    using that by (simp add: stamp_file_def data_path_def)
  have 3: "texts ?fs' (stamp_file clock) = Some (str_int (now_ms clock))"
    if "status (main fuel http env clock order fs) = Saved"
    using main_status_saved [OF that] save_results_stamp [of clock order fs] by auto
  have 4: "map_of (params req) ''from'' = None"
    if "req \<in> set (requests (main fuel' http' env' clock' order' ?fs'))" for req
  proof -
    from main_requests [OF load that] obtain q
      where "req = page_request env' (env' ''CLID'') None 100 q" by blast
    then show ?thesis by (simp add: page_request_no_from)
  qed
  have 5: "requests (main fuel' http' env' clock' order' ?fs') \<noteq> []" if "0 < fuel'"
  proof -
    from that obtain k where "fuel' = Suc k" by (cases fuel') auto
    then show ?thesis
      using main_first_request_none [OF load, of k http' env' clock' order'] by auto
  qed
  show ?thesis using 1 2 6 3 absent load 4 5 by blast
qed

text \<open>
  A first run on an empty directory that fetches one incident and saves, followed by a
  second run on the files it left.
\<close>

theorem watermark_not_reloaded_witness:
  "status (main 3 one_incident Map.empty sample_clock id \<lparr>texts = Map.empty, docs = Map.empty\<rparr>)
     = Saved
   \<and> stamp_file sample_clock = ''data/2023-11-14-222320_last_query_timestamp.txt''
   \<and> texts (files (main 3 one_incident Map.empty sample_clock id
                       \<lparr>texts = Map.empty, docs = Map.empty\<rparr>))
        ''data/2023-11-14-222320_last_query_timestamp.txt'' = Some ''1700000600000''
   \<and> texts (files (main 3 one_incident Map.empty sample_clock id
                       \<lparr>texts = Map.empty, docs = Map.empty\<rparr>))
        ''data/last_query_timestamp.txt'' = None
   \<and> get_last_query_timestamp
        (files (main 3 one_incident Map.empty sample_clock id
                  \<lparr>texts = Map.empty, docs = Map.empty\<rparr>)) None = Inr None
   \<and> map (\<lambda>req. map_of (params req) ''from'')
        (requests (main 3 one_incident Map.empty sample_clock id
           (files (main 3 one_incident Map.empty sample_clock id
                     \<lparr>texts = Map.empty, docs = Map.empty\<rparr>))))
     = [None]"
proof -
  let ?fs = "\<lparr>texts = Map.empty, docs = Map.empty\<rparr>"
  let ?incident = "JObj [(''dominant_attack_ip'',
                          JObj [(''ip'', JStr ''1.2.3.4''), (''reputation'', JArr [JStr ''bot''])]),
                        (''dominant_attacked_host'', JObj [(''value'', JStr ''evil.example.com'')])]"
  let ?run = "main 3 one_incident Map.empty sample_clock id ?fs"
  have fetch: "fetch_all_incidents_with_pagination 3 one_incident env caid since 100
      = ([page_request env caid since 100 1], Returned [?incident])" for env caid since
    by (simp add: fetch_all_incidents_with_pagination_def numeral_3_eq_3 one_incident_def
        page_items_def)
  have ex: "extract_data_from_incidents (JArr [?incident])
      = Inr ([(''1.2.3.4'', JArr [JStr ''bot''])], {''evil.example.com''})"
    by code_simp
  have dl: "detail_loop id (JObj []) [(''1.2.3.4'', JArr [JStr ''bot''])]
      = Inr (JObj [(''1.2.3.4'', JArr [JStr ''bot''])])"
    by code_simp
  have ips: "snd (save_ip_data_to_file ?fs cs id [(''1.2.3.4'', JArr [JStr ''bot''])] f1 f2)
      = Inr (Set.filter (\<lambda>ip. strip ip \<noteq> []) {''1.2.3.4''})" for cs f1 f2
    by (simp add: save_ip_data_to_file_def Let_def dl del: detail_loop.simps)
  have saved: "snd (save_results sample_clock id ?fs [?incident]) = Saved"
    using ips [of "call_stamp sample_clock" "Some (file_stamp sample_clock @ ''_ip_data.txt'')"
        "Some (file_stamp sample_clock @ ''_ip_detailed.json'')"]
    by (auto simp add: save_results_def ex Let_def split: prod.splits sum.splits)
  have load0: "get_last_query_timestamp ?fs None = Inr None"
    by (simp add: get_last_query_timestamp_def watermark_path_def)
  have run: "status ?run = Saved"
    using saved by (simp add: main_def load0 fetch Let_def)
  have path: "stamp_file sample_clock = ''data/2023-11-14-222320_last_query_timestamp.txt''"
    by (simp add: stamp_file_def sample_clock_def data_path_def startswith_def)
  have now: "str_int (now_ms sample_clock) = ''1700000600000''"
    by (simp add: sample_clock_def str_int_sample)
  note inst = watermark_not_reloaded [of ?fs sample_clock 3 one_incident Map.empty id
      3 one_incident Map.empty sample_clock id, simplified]
  have load: "get_last_query_timestamp (files ?run) None = Inr None" using inst by blast
  have next_run: "requests (main 3 one_incident Map.empty sample_clock id (files ?run))
      = [page_request Map.empty None None 100 1]"
    by (simp add: main_requests_none [OF load] fetch)
  have 3: "texts (files ?run) ''data/2023-11-14-222320_last_query_timestamp.txt''
      = Some ''1700000600000''"
    using inst run path now by simp
  have 4: "texts (files ?run) ''data/last_query_timestamp.txt'' = None" using inst by blast
  show ?thesis using run path 3 4 load next_run by (simp add: page_request_no_from)
qed

section \<open>Merging the same data twice\<close>


lemma CR_space: "is_space CR"
  by (simp add: CR_def is_space_def)





















lemma filesystem_texts_same:
  "(fs :: filesystem)\<lparr>texts := (texts fs)(p \<mapsto> t)\<rparr>\<lparr>texts := (texts (fs\<lparr>texts := (texts fs)(p \<mapsto> t)\<rparr>))(p \<mapsto> t)\<rparr>
     = fs\<lparr>texts := (texts fs)(p \<mapsto> t)\<rparr>"
  by simp









lemma tag_sets_keys: "map fst (tag_sets kvs) = map fst kvs"
  by (simp add: tag_sets_def comp_def)



















end
